theory Spec2Isabelle
  imports Main
begin

section \<open>Calendar dates (Python's datetime.date)\<close>

text \<open>
  The exceptions the module can raise, as values. \<open>Exception\<close> stands for a bare
  \<^verbatim>\<open>raise Exception(...)\<close>; the message texts are not modelled.
\<close>

datatype error = TypeError | ValueError | OverflowError | KeyError | Exception

text \<open>
  A \<^verbatim>\<open>datetime.date\<close> is a triple of Python integers. The library only ever builds
  triples that satisfy \<open>valid_date\<close>: a year between \<open>MINYEAR\<close> and \<open>MAXYEAR\<close>, a
  month between 1 and 12 and a day that exists in that month.
\<close>

record date =
  year :: int
  month :: int
  day :: int

definition MINYEAR :: int where
  "MINYEAR = 1"

definition MAXYEAR :: int where
  "MAXYEAR = 9999"

definition is_leap :: "int \<Rightarrow> bool" where
  "is_leap y = (y mod 4 = 0 \<and> (y mod 100 \<noteq> 0 \<or> y mod 400 = 0))"

definition days_in_month :: "int \<Rightarrow> int \<Rightarrow> int" where
  "days_in_month y m =
     (if m = 2 then (if is_leap y then 29 else 28)
      else if m = 4 \<or> m = 6 \<or> m = 9 \<or> m = 11 then 30 else 31)"

definition days_before_year :: "int \<Rightarrow> int" where
  "days_before_year y =
     (let p = y - 1 in p * 365 + p div 4 - p div 100 + p div 400)"

definition days_before_month :: "int \<Rightarrow> int \<Rightarrow> int" where
  "days_before_month y m =
     (if m \<le> 1 then 0 else if m = 2 then 31
      else (if is_leap y then 1 else 0) +
        (if m = 3 then 59 else if m = 4 then 90 else if m = 5 then 120
         else if m = 6 then 151 else if m = 7 then 181 else if m = 8 then 212
         else if m = 9 then 243 else if m = 10 then 273 else if m = 11 then 304
         else 334))"

definition valid_date :: "date \<Rightarrow> bool" where
  "valid_date d =
     (MINYEAR \<le> year d \<and> year d \<le> MAXYEAR \<and> 1 \<le> month d \<and> month d \<le> 12 \<and>
      1 \<le> day d \<and> day d \<le> days_in_month (year d) (month d))"

text \<open>
  The constructor \<^verbatim>\<open>date(year, month, day)\<close> of CPython first converts its three
  arguments to C integers, and raises OverflowError for one that does not fit in 32
  bits; then it raises ValueError for a triple outside the range of dates.
\<close>

definition fits_c_int :: "int \<Rightarrow> bool" where
  "fits_c_int n = (- 2147483648 \<le> n \<and> n \<le> 2147483647)"

definition dtdate :: "int \<Rightarrow> int \<Rightarrow> int \<Rightarrow> error + date" where
  "dtdate y m dd =
     (let d = \<lparr>year = y, month = m, day = dd\<rparr>
      in if \<not> (fits_c_int y \<and> fits_c_int m \<and> fits_c_int dd) then Inl OverflowError
         else if valid_date d then Inr d else Inl ValueError)"

text \<open>\<^verbatim>\<open>date.toordinal()\<close>: 0001-01-01 is day 1.\<close>

definition toordinal :: "date \<Rightarrow> int" where
  "toordinal d = days_before_year (year d) + days_before_month (year d) (month d) + day d"

text \<open>
  \<^verbatim>\<open>date + timedelta(days=n)\<close> moves \<open>n\<close> days along the calendar and raises
  OverflowError when it leaves the years \<open>MINYEAR..MAXYEAR\<close>. It is modelled by
  stepping to the next (or the previous) day \<open>n\<close> times.
\<close>

definition next_day :: "date \<Rightarrow> error + date" where
  "next_day d =
     (if day d < days_in_month (year d) (month d) then Inr (d\<lparr>day := day d + 1\<rparr>)
      else if month d < 12 then Inr \<lparr>year = year d, month = month d + 1, day = 1\<rparr>
      else if year d < MAXYEAR then Inr \<lparr>year = year d + 1, month = 1, day = 1\<rparr>
      else Inl OverflowError)"

definition prev_day :: "date \<Rightarrow> error + date" where
  "prev_day d =
     (if 1 < day d then Inr (d\<lparr>day := day d - 1\<rparr>)
      else if 1 < month d
        then Inr \<lparr>year = year d, month = month d - 1,
                 day = days_in_month (year d) (month d - 1)\<rparr>
      else if MINYEAR < year d then Inr \<lparr>year = year d - 1, month = 12, day = 31\<rparr>
      else Inl OverflowError)"

primrec forward :: "nat \<Rightarrow> date \<Rightarrow> error + date" where
  "forward 0 d = Inr d"
| "forward (Suc n) d = (case next_day d of Inl e \<Rightarrow> Inl e | Inr d' \<Rightarrow> forward n d')"

primrec backward :: "nat \<Rightarrow> date \<Rightarrow> error + date" where
  "backward 0 d = Inr d"
| "backward (Suc n) d = (case prev_day d of Inl e \<Rightarrow> Inl e | Inr d' \<Rightarrow> backward n d')"

definition date_add :: "date \<Rightarrow> int \<Rightarrow> error + date" where
  "date_add d n = (if 0 \<le> n then forward (nat n) d else backward (nat (- n)) d)"

text \<open>\<^verbatim>\<open>(a - b).days\<close> for two dates.\<close>

definition date_sub :: "date \<Rightarrow> date \<Rightarrow> int" where
  "date_sub a b = toordinal a - toordinal b"

text \<open>
  \<^verbatim>\<open>int(d.strftime("%w"))\<close>: the weekday with Sunday = 0. Python's
  \<^verbatim>\<open>weekday()\<close> is \<open>(toordinal + 6) mod 7\<close> with Monday = 0.
\<close>

definition weekday :: "date \<Rightarrow> int" where
  "weekday d = (toordinal d + 6) mod 7"

definition strftime_w :: "date \<Rightarrow> int" where
  "strftime_w d = (weekday d + 1) mod 7"

text \<open>\<^verbatim>\<open>int(d.strftime("%j"))\<close>: the day of the year, January 1st being 1.\<close>

definition strftime_j :: "date \<Rightarrow> int" where
  "strftime_j d = days_before_month (year d) (month d) + day d"

text \<open>
  \<^verbatim>\<open>d + relativedelta(weekday=SU)\<close> of dateutil: the first Sunday on or after \<open>d\<close>
  (dateutil adds \<open>(7 - d.weekday() + 6) mod 7\<close> days, Sunday being weekday 6).
\<close>

definition add_relativedelta_SU :: "date \<Rightarrow> error + date" where
  "add_relativedelta_SU d = date_add d ((7 - weekday d + 6) mod 7)"

section \<open>TDate\<close>

text \<open>
  \<open>TDate\<close> wraps a date; its constructor only raises for arguments that are not dates,
  so its methods are functions of the date.
\<close>

definition day_of_week_int :: "date \<Rightarrow> int" where
  "day_of_week_int d = (toordinal d mod 7) + 1"

definition day_of_month :: "date \<Rightarrow> int" where
  "day_of_month d = day d"

definition day_of_year :: "date \<Rightarrow> int" where
  "day_of_year d = strftime_j d"

definition month_of_year :: "date \<Rightarrow> int" where
  "month_of_year d = month d"

definition jan1 :: "date \<Rightarrow> error + date" where
  "jan1 d = dtdate (year d) 1 1"

definition jan1_next_year :: "date \<Rightarrow> error + date" where
  "jan1_next_year d = dtdate (year d + 1) 1 1"

text \<open>\<^verbatim>\<open>x in range(lo, hi)\<close> for an integer \<open>x\<close>.\<close>

definition in_range :: "int \<Rightarrow> int \<Rightarrow> int \<Rightarrow> bool" where
  "in_range x lo hi = (lo \<le> x \<and> x < hi)"

text \<open>
  \<^verbatim>\<open>int(a / b)\<close>: true division followed by truncation towards zero. For the
  day counts that occur (below 400 in absolute value) the floating-point quotient
  truncates to the exact integer quotient.
\<close>

definition int_truediv :: "int \<Rightarrow> int \<Rightarrow> int" where
  "int_truediv a b = sgn a * sgn b * (\<bar>a\<bar> div \<bar>b\<bar>)"

section \<open>Internals.date_to_week_tuple\<close>

definition date_to_week_tuple :: "date \<Rightarrow> error + (int \<times> int)" where
  "date_to_week_tuple any_date =
     (case jan1 any_date of Inl e \<Rightarrow> Inl e | Inr j1 \<Rightarrow>
      case jan1_next_year any_date of Inl e \<Rightarrow> Inl e | Inr j1_next \<Rightarrow>
        if day_of_month any_date = 1 \<and> month_of_year any_date = 1
          then Inr (year any_date, 1)
        else if day_of_week_int any_date > day_of_week_int j1 \<and>
                in_range (date_sub any_date j1) 1 7
          then Inr (year any_date, 1)
        else if day_of_week_int any_date < day_of_week_int j1_next \<and>
                in_range (date_sub j1_next any_date) 1 7
          then Inr (year any_date + 1, 1)
        else
          (case add_relativedelta_SU j1 of Inl e \<Rightarrow> Inl e | Inr first_sundays_date \<Rightarrow>
             let first_sundays_day_of_year = day_of_year first_sundays_date;
                 first_full_week = (if first_sundays_day_of_year = 1 then 1 else 2);
                 delta = day_of_year any_date - first_sundays_day_of_year;
                 week_number = int_truediv delta 7 + first_full_week
             in Inr (year j1, week_number)))"

section \<open>Formatting\<close>

text \<open>
  The \<^verbatim>\<open>strftime\<close> directives the module uses, in the C locale. \<open>%d\<close>, \<open>%m\<close> and
  \<open>%j\<close> are zero-padded to two, two and three digits; \<open>%Y\<close> is the year in decimal.
\<close>

definition digit_char :: "nat \<Rightarrow> char" where
  "digit_char n = ''0123456789'' ! (n mod 10)"

fun str_nat :: "nat \<Rightarrow> string" where
  "str_nat n = (if n < 10 then [digit_char n] else str_nat (n div 10) @ [digit_char n])"

definition str_int :: "int \<Rightarrow> string" where
  "str_int i = (if i < 0 then CHR ''-'' # str_nat (nat (- i)) else str_nat (nat i))"

definition zfill :: "nat \<Rightarrow> string \<Rightarrow> string" where
  "zfill w s = replicate (w - length s) CHR ''0'' @ s"

definition upper_char :: "char \<Rightarrow> char" where
  "upper_char ch =
     (case map_of (zip ''abcdefghijklmnopqrstuvwxyz'' ''ABCDEFGHIJKLMNOPQRSTUVWXYZ'') ch of
        None \<Rightarrow> ch | Some u \<Rightarrow> u)"

definition upper :: "string \<Rightarrow> string" where
  "upper s = map upper_char s"

definition strftime_d :: "date \<Rightarrow> string" where
  "strftime_d d = zfill 2 (str_int (day d))"

definition strftime_m :: "date \<Rightarrow> string" where
  "strftime_m d = zfill 2 (str_int (month d))"

definition strftime_Y :: "date \<Rightarrow> string" where
  "strftime_Y d = str_int (year d)"

definition strftime_j_str :: "date \<Rightarrow> string" where
  "strftime_j_str d = zfill 3 (str_int (strftime_j d))"

definition strftime_Ymd :: "date \<Rightarrow> string" where
  "strftime_Ymd d = strftime_Y d @ ''-'' @ strftime_m d @ ''-'' @ strftime_d d"

definition strftime_mdY :: "date \<Rightarrow> string" where
  "strftime_mdY d = strftime_m d @ ''/'' @ strftime_d d @ ''/'' @ strftime_Y d"

definition strftime_A :: "date \<Rightarrow> string" where
  "strftime_A d =
     [''Sunday'', ''Monday'', ''Tuesday'', ''Wednesday'', ''Thursday'', ''Friday'', ''Saturday'']
       ! nat (strftime_w d)"

definition strftime_a :: "date \<Rightarrow> string" where
  "strftime_a d = [''Sun'', ''Mon'', ''Tue'', ''Wed'', ''Thu'', ''Fri'', ''Sat''] ! nat (strftime_w d)"

definition strftime_B :: "date \<Rightarrow> string" where
  "strftime_B d =
     [''January'', ''February'', ''March'', ''April'', ''May'', ''June'', ''July'', ''August'',
      ''September'', ''October'', ''November'', ''December''] ! nat (month d - 1)"

section \<open>Constants and records\<close>

definition EPOCH_START_YEAR :: int where
  "EPOCH_START_YEAR = 2020"

definition EPOCH_END_YEAR :: int where
  "EPOCH_END_YEAR = 2050"

definition MIN_YEAR :: int where
  "MIN_YEAR = 2000"

definition MAX_YEAR :: int where
  "MAX_YEAR = 2201"

record weekday_entry =
  pos :: int
  name_short :: string
  name_long :: string

definition WEEKDAYS_SUN0 :: "weekday_entry list" where
  "WEEKDAYS_SUN0 =
     [\<lparr>pos = 0, name_short = ''SUN'', name_long = ''Sunday''\<rparr>,
      \<lparr>pos = 1, name_short = ''MON'', name_long = ''Monday''\<rparr>,
      \<lparr>pos = 2, name_short = ''TUE'', name_long = ''Tuesday''\<rparr>,
      \<lparr>pos = 3, name_short = ''WED'', name_long = ''Wednesday''\<rparr>,
      \<lparr>pos = 4, name_short = ''THU'', name_long = ''Thursday''\<rparr>,
      \<lparr>pos = 5, name_short = ''FRI'', name_long = ''Friday''\<rparr>,
      \<lparr>pos = 6, name_short = ''SAT'', name_long = ''Saturday''\<rparr>]"

definition WEEKDAYS_MON0 :: "weekday_entry list" where
  "WEEKDAYS_MON0 =
     [\<lparr>pos = 0, name_short = ''MON'', name_long = ''Monday''\<rparr>,
      \<lparr>pos = 1, name_short = ''TUE'', name_long = ''Tuesday''\<rparr>,
      \<lparr>pos = 2, name_short = ''WED'', name_long = ''Wednesday''\<rparr>,
      \<lparr>pos = 3, name_short = ''THU'', name_long = ''Thursday''\<rparr>,
      \<lparr>pos = 4, name_short = ''FRI'', name_long = ''Friday''\<rparr>,
      \<lparr>pos = 5, name_short = ''SAT'', name_long = ''Saturday''\<rparr>,
      \<lparr>pos = 6, name_short = ''SUN'', name_long = ''Sunday''\<rparr>]"

text \<open>The dictionaries the Builder writes: one record per dictionary, one field per key.\<close>

record week_dict =
  wd_year :: int
  wd_week_number :: int
  wd_week_start :: date
  wd_week_end :: date
  wd_week_dates :: "date list"

record year_dict =
  yd_year :: int
  yd_date_start :: string
  yd_date_end :: string
  yd_days_in_year :: int
  yd_jan_one_dayname :: string
  yd_jan_one_weekpos :: int
  yd_max_week_number :: int

record day_dict =
  dd_date :: date
  dd_date_as_string :: string
  dd_weekday_name :: string
  dd_weekday_name_short :: string
  dd_day_of_month :: string
  dd_month_in_year_int :: string
  dd_month_in_year_str :: string
  dd_year :: int
  dd_day_of_year :: string
  dd_week_year :: int
  dd_week_number :: int
  dd_index_in_week :: int

text \<open>The class \<open>Week\<close>.\<close>

record Week =
  week_year :: int
  week_number :: int
  week_number_str :: string
  days :: "date list"
  date_start :: date
  date_end :: date

definition Week_init :: "int \<Rightarrow> int \<Rightarrow> date list \<Rightarrow> date \<Rightarrow> date \<Rightarrow> Week" where
  "Week_init wy wn set_of_days ds de =
     \<lparr>week_year = wy, week_number = wn, week_number_str = zfill 2 (str_int wn),
      days = set_of_days, date_start = ds, date_end = de\<rparr>"

section \<open>The cache and the settings\<close>

text \<open>
  Modelled from the spec: the module \<^verbatim>\<open>temporal.redis\<close> (\<^verbatim>\<open>write_single_week\<close>,
  \<^verbatim>\<open>read_single_week\<close>, \<^verbatim>\<open>write_single_day\<close>, \<^verbatim>\<open>read_single_day\<close>,
  \<^verbatim>\<open>write_single_year\<close>, \<^verbatim>\<open>read_single_year\<close>, \<^verbatim>\<open>write_years\<close>) is not among the
  sources. The spec describes a key-value store with three independent key families, each
  key determined by its natural key (the calendar date; the week year and week number; the
  calendar year), where a write stores the complete record and a read returns the record or
  nothing. The store is a record of maps over the natural keys.
\<close>

record cache =
  day_store :: "date \<rightharpoonup> day_dict"
  week_store :: "(int \<times> int) \<rightharpoonup> week_dict"
  year_store :: "int \<rightharpoonup> year_dict"
  years_store :: "int list option"

definition write_single_week :: "week_dict \<Rightarrow> cache \<Rightarrow> cache" where
  "write_single_week w c =
     c\<lparr>week_store := (week_store c)((wd_year w, wd_week_number w) \<mapsto> w)\<rparr>"

definition read_single_week :: "cache \<Rightarrow> int \<Rightarrow> int \<Rightarrow> week_dict option" where
  "read_single_week c y n = week_store c (y, n)"

definition write_single_day :: "day_dict \<Rightarrow> cache \<Rightarrow> cache" where
  "write_single_day dd c = c\<lparr>day_store := (day_store c)(dd_date dd \<mapsto> dd)\<rparr>"

definition read_single_day :: "cache \<Rightarrow> date \<Rightarrow> day_dict option" where
  "read_single_day c d = day_store c d"

definition write_single_year :: "year_dict \<Rightarrow> cache \<Rightarrow> cache" where
  "write_single_year yd c = c\<lparr>year_store := (year_store c)(yd_year yd \<mapsto> yd)\<rparr>"

definition read_single_year :: "cache \<Rightarrow> int \<Rightarrow> year_dict option" where
  "read_single_year c y = year_store c y"

definition write_years :: "int list \<Rightarrow> cache \<Rightarrow> cache" where
  "write_years ys c = c\<lparr>years_store := Some ys\<rparr>"

text \<open>
  The settings read through \<^verbatim>\<open>frappe.db.get_single_value('Temporal Manager', ...)\<close>: the
  debug flag and the two years, each of which may be unset.
\<close>

record frappe_db =
  db_debug_mode :: bool
  db_start_year :: "int option"
  db_end_year :: "int option"

text \<open>\<^verbatim>\<open>int(value or 0)\<close>.\<close>

definition int_or_0 :: "int option \<Rightarrow> int" where
  "int_or_0 v = (case v of None \<Rightarrow> 0 | Some i \<Rightarrow> i)"

section \<open>Generators\<close>

text \<open>
  \<^verbatim>\<open>date_range(start_date, end_date)\<close> yields \<^verbatim>\<open>start_date + timedelta(n)\<close> for
  \<open>n\<close> in \<^verbatim>\<open>range((end_date - start_date).days + 1)\<close>. A generator is the list of the
  steps it takes, each a date or the exception raised at that step; \<open>collect\<close> is
  \<^verbatim>\<open>list(...)\<close>, which stops at the first exception.
\<close>

definition date_range :: "date \<Rightarrow> date \<Rightarrow> (error + date) list" where
  "date_range start_date end_date =
     map (\<lambda>number_of_days. date_add start_date (int number_of_days))
       [0 ..< nat (date_sub end_date start_date + 1)]"

fun collect :: "(error + 'a) list \<Rightarrow> error + 'a list" where
  "collect [] = Inr []"
| "collect (Inl e # _) = Inl e"
| "collect (Inr x # xs) = (case collect xs of Inl e \<Rightarrow> Inl e | Inr ys \<Rightarrow> Inr (x # ys))"

section \<open>Builder\<close>

record Builder =
  debug_mode :: bool
  epoch_year :: int
  end_year :: int
  years :: "int list"
  weekday_names :: "weekday_entry list"
  week_dicts :: "week_dict list"

text \<open>
  \<^verbatim>\<open>Builder.__init__\<close>. An argument that is \<^verbatim>\<open>None\<close> or 0 is replaced by the setting,
  and an unset or zero setting by the module's constant.
\<close>

definition Builder_init :: "frappe_db \<Rightarrow> int option \<Rightarrow> int option \<Rightarrow> string \<Rightarrow> error + Builder" where
  "Builder_init db epoch_year_arg end_year_arg start_of_week =
     (if start_of_week \<noteq> ''SUN'' \<and> start_of_week \<noteq> ''MON'' then Inl ValueError
      else if start_of_week \<noteq> ''SUN'' then Inl Exception
      else
        let epoch_y =
              (if int_or_0 epoch_year_arg = 0
               then (let gui_start_year = int_or_0 (db_start_year db)
                     in if gui_start_year = 0 then EPOCH_START_YEAR else gui_start_year)
               else int_or_0 epoch_year_arg);
            end_y =
              (if int_or_0 end_year_arg = 0
               then (let gui_end_year = int_or_0 (db_end_year db)
                     in if gui_end_year = 0 then EPOCH_END_YEAR else gui_end_year)
               else int_or_0 end_year_arg)
        in if end_y < epoch_y then Inl ValueError
           else Inr \<lparr>debug_mode = db_debug_mode db, epoch_year = epoch_y, end_year = end_y,
                     years = [epoch_y .. end_y],
                     weekday_names =
                       (if start_of_week = ''SUN'' then WEEKDAYS_SUN0 else WEEKDAYS_MON0),
                     week_dicts = []\<rparr>)"

section \<open>Calendar arithmetic\<close>

lemma days_in_month_le_31: "days_in_month y m \<le> 31"
  by (simp add: days_in_month_def)

lemma valid_date_fits_c_int:
  assumes "valid_date \<lparr>year = y, month = m, day = dd\<rparr>"
  shows "fits_c_int y \<and> fits_c_int m \<and> fits_c_int dd"
proof -
  have "dd \<le> 31" using assms days_in_month_le_31[of y m] by (simp add: valid_date_def)
  with assms show ?thesis by (simp add: valid_date_def fits_c_int_def MINYEAR_def MAXYEAR_def)
qed

lemma dtdate_eq:
  "dtdate y m dd =
     (if valid_date \<lparr>year = y, month = m, day = dd\<rparr> then Inr \<lparr>year = y, month = m, day = dd\<rparr>
      else if \<not> (fits_c_int y \<and> fits_c_int m \<and> fits_c_int dd) then Inl OverflowError
      else Inl ValueError)"
  using valid_date_fits_c_int[of y m dd] by (auto simp: dtdate_def Let_def)

lemma days_in_month_bounds: "28 \<le> days_in_month y m" "days_in_month y m \<le> 31"
  by (simp_all add: days_in_month_def)

lemma div_pred:
  fixes y k :: int
  assumes "0 < k"
  shows "(y - 1) div k = y div k - (if y mod k = 0 then 1 else 0)"
proof (cases "y mod k = 0")
  case True
  have "y - 1 = k * (y div k - 1) + (k - 1)"
    using True by (simp add: algebra_simps) (metis True add.right_neutral mult_div_mod_eq)
  then have "(y - 1) div k = y div k - 1"
    using assms by (intro int_div_pos_eq[where r = "k - 1"]) auto
  with True show ?thesis by simp
next
  case False
  have "0 \<le> y mod k" "y mod k < k" using assms by simp_all
  with False have r: "0 \<le> y mod k - 1" "y mod k - 1 < k" by linarith+
  have "y - 1 = k * (y div k) + (y mod k - 1)" by simp
  then have "(y - 1) div k = y div k"
    using r by (intro int_div_pos_eq[where r = "y mod k - 1"]) auto
  with False show ?thesis by simp
qed

lemma mod_400_100: "(y::int) mod 400 = 0 \<Longrightarrow> y mod 100 = 0"
  using dvd_trans[of "100::int" 400 y] by (simp add: mod_eq_0_iff_dvd)

lemma mod_100_4: "(y::int) mod 100 = 0 \<Longrightarrow> y mod 4 = 0"
  using dvd_trans[of "4::int" 100 y] by (simp add: mod_eq_0_iff_dvd)

lemma days_before_year_Suc:
  "days_before_year (y + 1) = days_before_year y + (if is_leap y then 366 else 365)"
proof -
  have a: "(y - 1) div 4 = y div 4 - (if y mod 4 = 0 then 1 else 0)" by (rule div_pred) simp
  have b: "(y - 1) div 100 = y div 100 - (if y mod 100 = 0 then 1 else 0)" by (rule div_pred) simp
  have c: "(y - 1) div 400 = y div 400 - (if y mod 400 = 0 then 1 else 0)" by (rule div_pred) simp
  show ?thesis
    using mod_400_100[of y] mod_100_4[of y] unfolding days_before_year_def is_leap_def Let_def
    by (simp add: a b c)
qed

lemma month_cases:
  fixes m :: int
  assumes "1 \<le> m" "m \<le> 12"
  shows "m = 1 \<or> m = 2 \<or> m = 3 \<or> m = 4 \<or> m = 5 \<or> m = 6 \<or> m = 7 \<or> m = 8 \<or> m = 9 \<or> m = 10
         \<or> m = 11 \<or> m = 12"
  using assms by arith

lemma days_before_month_Suc:
  assumes "1 \<le> m" "m \<le> 11"
  shows "days_before_month y (m + 1) = days_before_month y m + days_in_month y m"
proof -
  have "m \<le> 12" using assms by simp
  from month_cases[OF assms(1) this] assms(2) show ?thesis
    by (elim disjE) (simp_all add: days_before_month_def days_in_month_def)
qed

lemma days_before_month_nonneg: "0 \<le> days_before_month y m"
  by (simp add: days_before_month_def)

lemma days_before_month_mono:
  assumes "1 \<le> m" "m \<le> m'" "m' \<le> 12"
  shows "days_before_month y m \<le> days_before_month y m'"
proof -
  have "m \<le> 12" "1 \<le> m'" using assms by simp_all
  from month_cases[OF assms(1) this(1)] month_cases[OF this(2) assms(3)] assms(2)
  show ?thesis
    by (elim disjE) (simp_all add: days_before_month_def)
qed

lemma toordinal_next_day:
  assumes "valid_date d" "next_day d = Inr d'"
  shows "valid_date d' \<and> toordinal d' = toordinal d + 1"
proof -
  have b: "1 \<le> month d" "month d \<le> 12" "1 \<le> day d" "day d \<le> days_in_month (year d) (month d)"
    "MINYEAR \<le> year d" "year d \<le> MAXYEAR"
    using assms(1) by (simp_all add: valid_date_def)
  have "day d < days_in_month (year d) (month d)
    \<or> (day d = days_in_month (year d) (month d) \<and> month d < 12)
    \<or> (day d = days_in_month (year d) (month d) \<and> month d = 12 \<and> year d < MAXYEAR)
    \<or> (day d = days_in_month (year d) (month d) \<and> month d = 12 \<and> \<not> year d < MAXYEAR)"
    using b by arith
  then consider (a) "day d < days_in_month (year d) (month d)"
    | (b) "day d = days_in_month (year d) (month d)" "month d < 12"
    | (c) "day d = days_in_month (year d) (month d)" "month d = 12" "year d < MAXYEAR"
    | (e) "day d = days_in_month (year d) (month d)" "month d = 12" "\<not> year d < MAXYEAR"
    by blast
  then show ?thesis
  proof cases
    case a
    then have "d' = d\<lparr>day := day d + 1\<rparr>" using assms(2) by (simp add: next_day_def)
    then show ?thesis using a b by (simp add: valid_date_def toordinal_def)
  next
    case b
    then have d': "d' = \<lparr>year = year d, month = month d + 1, day = 1\<rparr>"
      using assms(2) by (simp add: next_day_def)
    have "28 \<le> days_in_month (year d) (month d + 1)" by (rule days_in_month_bounds)
    then show ?thesis using b \<open>1 \<le> month d\<close> \<open>MINYEAR \<le> year d\<close> \<open>year d \<le> MAXYEAR\<close>
      by (simp add: d' valid_date_def toordinal_def days_before_month_Suc)
  next
    case c
    then have d': "d' = \<lparr>year = year d + 1, month = 1, day = 1\<rparr>"
      using assms(2) by (simp add: next_day_def)
    show ?thesis using c \<open>MINYEAR \<le> year d\<close>
      by (simp add: d' valid_date_def toordinal_def days_before_year_Suc days_before_month_def
          days_in_month_def)
  next
    case e
    then show ?thesis using assms(2) by (simp add: next_day_def)
  qed
qed

lemma toordinal_prev_day:
  assumes "valid_date d" "prev_day d = Inr d'"
  shows "valid_date d' \<and> toordinal d' = toordinal d - 1"
proof -
  have b: "1 \<le> month d" "month d \<le> 12" "1 \<le> day d" "day d \<le> days_in_month (year d) (month d)"
    "MINYEAR \<le> year d" "year d \<le> MAXYEAR"
    using assms(1) by (simp_all add: valid_date_def)
  have "1 < day d \<or> (day d = 1 \<and> 1 < month d)
    \<or> (day d = 1 \<and> month d = 1 \<and> MINYEAR < year d)
    \<or> (day d = 1 \<and> month d = 1 \<and> \<not> MINYEAR < year d)"
    using b by arith
  then consider (a) "1 < day d"
    | (b) "day d = 1" "1 < month d"
    | (c) "day d = 1" "month d = 1" "MINYEAR < year d"
    | (e) "day d = 1" "month d = 1" "\<not> MINYEAR < year d"
    by blast
  then show ?thesis
  proof cases
    case a
    then have "d' = d\<lparr>day := day d - 1\<rparr>" using assms(2) by (simp add: prev_day_def)
    then show ?thesis using a b by (simp add: valid_date_def toordinal_def)
  next
    case b
    then have d': "d' = \<lparr>year = year d, month = month d - 1,
        day = days_in_month (year d) (month d - 1)\<rparr>"
      using assms(2) by (simp add: prev_day_def)
    have "28 \<le> days_in_month (year d) (month d - 1)" by (rule days_in_month_bounds)
    moreover have "days_before_month (year d) (month d - 1 + 1) =
       days_before_month (year d) (month d - 1) + days_in_month (year d) (month d - 1)"
      using b \<open>month d \<le> 12\<close> by (intro days_before_month_Suc) auto
    ultimately show ?thesis using b \<open>month d \<le> 12\<close> \<open>MINYEAR \<le> year d\<close> \<open>year d \<le> MAXYEAR\<close>
      by (simp add: d' valid_date_def toordinal_def)
  next
    case c
    then have d': "d' = \<lparr>year = year d - 1, month = 12, day = 31\<rparr>"
      using assms(2) by (simp add: prev_day_def)
    have "days_before_year (year d - 1 + 1) = days_before_year (year d - 1) +
        (if is_leap (year d - 1) then 366 else 365)" by (rule days_before_year_Suc)
    then show ?thesis using c \<open>year d \<le> MAXYEAR\<close>
      by (simp add: d' valid_date_def toordinal_def days_before_month_def days_in_month_def)
  next
    case e
    then show ?thesis using assms(2) by (simp add: prev_day_def)
  qed
qed

lemma days_before_year_step_le: "days_before_year y + 365 \<le> days_before_year (y + 1)"
  by (simp add: days_before_year_Suc)

lemma days_before_year_mono_nat: "days_before_year y + 365 * int n \<le> days_before_year (y + int n)"
proof (induction n)
  case 0
  then show ?case by simp
next
  case (Suc n)
  have "days_before_year (y + int n) + 365 \<le> days_before_year (y + int n + 1)"
    by (rule days_before_year_step_le)
  moreover have "y + int (Suc n) = y + int n + 1" by simp
  ultimately show ?case using Suc by (simp only:) simp
qed

lemma days_before_year_mono:
  assumes "y \<le> y'"
  shows "days_before_year y + 365 * (y' - y) \<le> days_before_year y'"
  using days_before_year_mono_nat[of y "nat (y' - y)"] assms by simp

lemma days_before_year_le: "y \<le> y' \<Longrightarrow> days_before_year y \<le> days_before_year y'"
  using days_before_year_mono[of y y'] by (simp add: order_trans[rotated])

lemma days_before_month_day_le:
  assumes "valid_date d"
  shows "days_before_month (year d) (month d) + day d \<le> (if is_leap (year d) then 366 else 365)"
proof -
  have b: "1 \<le> month d" "month d \<le> 12" "day d \<le> days_in_month (year d) (month d)"
    using assms by (simp_all add: valid_date_def)
  from month_cases[OF b(1,2)] b(3) show ?thesis
    by (elim disjE) (simp_all add: days_before_month_def days_in_month_def split: if_splits)
qed

lemma toordinal_lower: "valid_date d \<Longrightarrow> days_before_year (year d) < toordinal d"
  using days_before_month_nonneg[of "year d" "month d"]
  by (simp add: toordinal_def valid_date_def)

lemma toordinal_upper: "valid_date d \<Longrightarrow> toordinal d \<le> days_before_year (year d + 1)"
  using days_before_month_day_le[of d]
  by (simp add: toordinal_def days_before_year_Suc split: if_splits)

lemma toordinal_year_mono:
  assumes "valid_date a" "valid_date b" "toordinal a \<le> toordinal b"
  shows "year a \<le> year b"
proof (rule ccontr)
  assume "\<not> year a \<le> year b"
  then have "year b + 1 \<le> year a" by simp
  then have "days_before_year (year b + 1) \<le> days_before_year (year a)"
    by (rule days_before_year_le)
  with toordinal_upper[OF assms(2)] toordinal_lower[OF assms(1)] assms(3) show False by simp
qed

lemma year_less_toordinal:
  assumes "valid_date a" "valid_date b" "year a < year b"
  shows "toordinal a < toordinal b"
  using toordinal_year_mono[OF assms(2,1)] assms(3) by force

lemma toordinal_inj:
  assumes "valid_date a" "valid_date b" "toordinal a = toordinal b"
  shows "a = b"
proof -
  have y: "year a = year b"
    using toordinal_year_mono[OF assms(1,2)] toordinal_year_mono[OF assms(2,1)] assms(3) by simp
  let ?y = "year b"
  have e: "days_before_month ?y (month a) + day a = days_before_month ?y (month b) + day b"
    using assms(3) y by (simp add: toordinal_def)
  have va: "1 \<le> month a" "month a \<le> 12" "1 \<le> day a" "day a \<le> days_in_month ?y (month a)"
    using assms(1) y by (simp_all add: valid_date_def)
  have vb: "1 \<le> month b" "month b \<le> 12" "1 \<le> day b" "day b \<le> days_in_month ?y (month b)"
    using assms(2) by (simp_all add: valid_date_def)
  have m: "month a = month b"
  proof (rule ccontr)
    assume ne: "month a \<noteq> month b"
    have False if h: "1 \<le> m" "m < m'" "m' \<le> 12" "1 \<le> dd'" "dd \<le> days_in_month ?y m"
      "days_before_month ?y m + dd = days_before_month ?y m' + dd'" for m m' dd dd'
    proof -
      have "days_before_month ?y (m + 1) = days_before_month ?y m + days_in_month ?y m"
        using h by (intro days_before_month_Suc) auto
      moreover have "days_before_month ?y (m + 1) \<le> days_before_month ?y m'"
        using h by (intro days_before_month_mono) auto
      ultimately show False using h by simp
    qed
    from this[of "month a" "month b" "day b" "day a"] this[of "month b" "month a" "day a" "day b"]
    show False using ne va vb e by (cases "month a < month b") auto
  qed
  with e have "day a = day b" by simp
  with y m show ?thesis by simp
qed

lemma next_day_ok:
  assumes "valid_date d" "toordinal d < days_before_year (MAXYEAR + 1)"
  shows "\<exists>d'. next_day d = Inr d'"
proof (cases "year d < MAXYEAR \<or> month d < 12 \<or> day d < days_in_month (year d) (month d)")
  case True
  then show ?thesis by (auto simp: next_day_def)
next
  case False
  then have "year d = MAXYEAR" "month d = 12" "day d = 31"
    using assms(1) by (auto simp: valid_date_def days_in_month_def)
  then have "toordinal d = days_before_year (MAXYEAR + 1)"
    by (simp add: toordinal_def days_before_year_Suc days_before_month_def)
  with assms(2) show ?thesis by simp
qed

lemma prev_day_ok:
  assumes "valid_date d" "1 < toordinal d"
  shows "\<exists>d'. prev_day d = Inr d'"
proof (cases "MINYEAR < year d \<or> 1 < month d \<or> 1 < day d")
  case True
  then show ?thesis by (auto simp: prev_day_def)
next
  case False
  then have "year d = 1" "month d = 1" "day d = 1"
    using assms(1) by (auto simp: valid_date_def MINYEAR_def)
  then have "toordinal d = 1"
    by (simp add: toordinal_def days_before_year_def days_before_month_def)
  with assms(2) show ?thesis by simp
qed

lemma forward_toordinal:
  "valid_date d \<Longrightarrow> forward n d = Inr d' \<Longrightarrow> valid_date d' \<and> toordinal d' = toordinal d + int n"
proof (induction n arbitrary: d)
  case 0
  then show ?case by simp
next
  case (Suc n)
  from Suc.prems(2) obtain d1 where d1: "next_day d = Inr d1" "forward n d1 = Inr d'"
    by (auto split: sum.splits)
  from toordinal_next_day[OF Suc.prems(1) d1(1)] Suc.IH[OF _ d1(2)]
  show ?case by simp
qed

lemma forward_ok:
  "valid_date d \<Longrightarrow> toordinal d + int n \<le> days_before_year (MAXYEAR + 1) \<Longrightarrow>
     \<exists>d'. forward n d = Inr d'"
proof (induction n arbitrary: d)
  case 0
  then show ?case by simp
next
  case (Suc n)
  from next_day_ok[OF Suc.prems(1)] Suc.prems(2) obtain d1 where d1: "next_day d = Inr d1"
    by auto
  from toordinal_next_day[OF Suc.prems(1) d1] Suc.prems(2)
  have "valid_date d1" "toordinal d1 + int n \<le> days_before_year (MAXYEAR + 1)" by simp_all
  from Suc.IH[OF this] d1 show ?case by simp
qed

lemma backward_toordinal:
  "valid_date d \<Longrightarrow> backward n d = Inr d' \<Longrightarrow> valid_date d' \<and> toordinal d' = toordinal d - int n"
proof (induction n arbitrary: d)
  case 0
  then show ?case by simp
next
  case (Suc n)
  from Suc.prems(2) obtain d1 where d1: "prev_day d = Inr d1" "backward n d1 = Inr d'"
    by (auto split: sum.splits)
  from toordinal_prev_day[OF Suc.prems(1) d1(1)] Suc.IH[OF _ d1(2)]
  show ?case by simp
qed

lemma backward_ok:
  "valid_date d \<Longrightarrow> 1 \<le> toordinal d - int n \<Longrightarrow> \<exists>d'. backward n d = Inr d'"
proof (induction n arbitrary: d)
  case 0
  then show ?case by simp
next
  case (Suc n)
  from prev_day_ok[OF Suc.prems(1)] Suc.prems(2) obtain d1 where d1: "prev_day d = Inr d1"
    by auto
  from toordinal_prev_day[OF Suc.prems(1) d1] Suc.prems(2)
  have "valid_date d1" "1 \<le> toordinal d1 - int n" by simp_all
  from Suc.IH[OF this] d1 show ?case by simp
qed

lemma date_add_toordinal:
  assumes "valid_date d" "date_add d n = Inr d'"
  shows "valid_date d' \<and> toordinal d' = toordinal d + n"
proof (cases "0 \<le> n")
  case True
  with assms(2) have "forward (nat n) d = Inr d'" by (simp add: date_add_def)
  from forward_toordinal[OF assms(1) this] True show ?thesis by simp
next
  case False
  with assms(2) have "backward (nat (- n)) d = Inr d'" by (simp add: date_add_def)
  from backward_toordinal[OF assms(1) this] False show ?thesis by simp
qed

lemma date_add_ok:
  assumes "valid_date d" "1 \<le> toordinal d + n" "toordinal d + n \<le> days_before_year (MAXYEAR + 1)"
  shows "\<exists>d'. date_add d n = Inr d'"
proof (cases "0 \<le> n")
  case True
  with forward_ok[OF assms(1), of "nat n"] assms(3) show ?thesis by (simp add: date_add_def)
next
  case False
  with backward_ok[OF assms(1), of "nat (- n)"] assms(2) show ?thesis by (simp add: date_add_def)
qed

text \<open>
  Seven steps forward from a triple whose year is at most \<open>E\<close> decrease the measure
  \<open>date_meas E\<close> lexicographically, also for a triple that is no calendar date. This is
  what ends the loop of \<open>build_weeks\<close>.
\<close>

definition lex3 :: "(nat \<times> nat \<times> nat) \<Rightarrow> (nat \<times> nat \<times> nat) \<Rightarrow> bool" where
  "lex3 p q = (case p of (a, b, c) \<Rightarrow> case q of (a', b', c') \<Rightarrow>
      a < a' \<or> (a = a' \<and> (b < b' \<or> (b = b' \<and> c < c'))))"

definition date_meas :: "int \<Rightarrow> date \<Rightarrow> nat \<times> nat \<times> nat" where
  "date_meas E d = (nat (E + 1 - year d), nat (12 - month d), nat (31 - day d))"

lemma lex3_trans: "lex3 p q \<Longrightarrow> lex3 q r \<Longrightarrow> lex3 p r"
  by (auto simp: lex3_def split: prod.splits)

lemma next_day_cases:
  assumes "next_day d = Inr d'"
  shows "(d' = d\<lparr>day := day d + 1\<rparr> \<and> day d < 31)
       \<or> (d' = \<lparr>year = year d, month = month d + 1, day = 1\<rparr> \<and> month d < 12)
       \<or> d' = \<lparr>year = year d + 1, month = 1, day = 1\<rparr>"
  using assms days_in_month_bounds(2)[of "year d" "month d"]
  by (auto simp: next_day_def split: if_splits)

lemma forward_january:
  "month d = 1 \<Longrightarrow> day d + int n \<le> 31 \<Longrightarrow> forward n d = Inr (d\<lparr>day := day d + int n\<rparr>)"
proof (induction n arbitrary: d)
  case 0
  then show ?case by simp
next
  case (Suc n)
  have "next_day d = Inr (d\<lparr>day := day d + 1\<rparr>)"
    using Suc.prems by (simp add: next_day_def days_in_month_def)
  moreover have "forward n (d\<lparr>day := day d + 1\<rparr>) = Inr (d\<lparr>day := day d + 1, day := day d + 1 + int n\<rparr>)"
    using Suc.prems Suc.IH[of "d\<lparr>day := day d + 1\<rparr>"] by simp
  ultimately show ?case by (simp add: add.assoc add.commute)
qed

lemma forward_lex:
  "forward n d = Inr d' \<Longrightarrow> n \<le> 30 \<Longrightarrow> year d \<le> E \<Longrightarrow> 0 < n \<Longrightarrow>
     lex3 (date_meas E d') (date_meas E d)"
proof (induction n arbitrary: d)
  case 0
  then show ?case by simp
next
  case (Suc n)
  from Suc.prems(1) obtain d1 where d1: "next_day d = Inr d1" "forward n d1 = Inr d'"
    by (auto split: sum.splits)
  from next_day_cases[OF d1(1)]
  have "d1 = \<lparr>year = year d + 1, month = 1, day = 1\<rparr> \<or> (year d1 = year d \<and> lex3 (date_meas E d1) (date_meas E d))"
    by (auto simp: lex3_def date_meas_def)
  then show ?case
  proof
    assume j: "d1 = \<lparr>year = year d + 1, month = 1, day = 1\<rparr>"
    have "forward n d1 = Inr (d1\<lparr>day := day d1 + int n\<rparr>)"
      using Suc.prems(2) by (intro forward_january) (simp_all add: j)
    with d1(2) have "year d' = year d + 1" by (auto simp: j)
    then show ?thesis using Suc.prems(3) by (simp add: lex3_def date_meas_def)
  next
    assume a: "year d1 = year d \<and> lex3 (date_meas E d1) (date_meas E d)"
    show ?thesis
    proof (cases "n = 0")
      case True
      with d1(2) a show ?thesis by simp
    next
      case False
      then have "lex3 (date_meas E d') (date_meas E d1)"
        using Suc.IH[OF d1(2)] Suc.prems(2,3) a by simp
      with a show ?thesis by (blast intro: lex3_trans)
    qed
  qed
qed

lemma wf_lex3: "wf {(p, q). lex3 p q}"
proof -
  have "{(p, q). lex3 p q} = less_than <*lex*> less_than <*lex*> less_than"
    by (auto simp: lex3_def)
  then show ?thesis by (simp add: wf_lex_prod)
qed


section \<open>Builder.build_weeks\<close>

function build_weeks_loop ::
  "int \<Rightarrow> date \<Rightarrow> int option \<Rightarrow> week_dict list \<Rightarrow> cache \<Rightarrow> error option \<times> week_dict list \<times> cache" where
  "build_weeks_loop end_y week_start_date week_number_prev wds c =
     (if year week_start_date > end_y then (None, wds, c)
      else
        case date_add week_start_date 6 of Inl e \<Rightarrow> (Some e, wds, c) | Inr week_end_date \<Rightarrow>
        (case (if day week_start_date = 1 \<and> month week_start_date = 1 then Inr 1
               else if year week_end_date > year week_start_date then Inr 1
               else (case week_number_prev of None \<Rightarrow> Inl TypeError | Some n \<Rightarrow> Inr (n + 1))) of
           Inl e \<Rightarrow> (Some e, wds, c)
         | Inr week_number_new \<Rightarrow>
           (case collect (date_range week_start_date week_end_date) of
              Inl e \<Rightarrow> (Some e, wds, c)
            | Inr tuple_of_dates \<Rightarrow>
                let week_dict = \<lparr>wd_year = year week_end_date, wd_week_number = week_number_new,
                                 wd_week_start = week_start_date, wd_week_end = week_end_date,
                                 wd_week_dates = tuple_of_dates\<rparr>;
                    c' = write_single_week week_dict c;
                    wds' = wds @ [week_dict]
                in (case date_add week_start_date 7 of Inl e \<Rightarrow> (Some e, wds', c')
                    | Inr next_start \<Rightarrow>
                        build_weeks_loop end_y next_start (Some week_number_new) wds' c'))))"
  by pat_completeness auto
termination
proof (relation "inv_image {(p, q). lex3 p q} (\<lambda>(end_y, ws, _). date_meas end_y ws)")
  show "wf (inv_image {(p, q). lex3 p q} (\<lambda>(end_y, ws, _). date_meas end_y ws))"
    by (intro wf_inv_image wf_lex3)
next
  fix end_y :: int and week_start_date :: date and week_number_prev :: "int option"
    and wds :: "week_dict list" and c :: cache and next_start
  fix x2 x2a x2b xa xb xc
  assume "\<not> end_y < year week_start_date" and "date_add week_start_date 7 = Inr next_start"
  then have "forward 7 week_start_date = Inr next_start" "year week_start_date \<le> end_y"
    by (simp_all add: date_add_def)
  from forward_lex[OF this(1) _ this(2)]
  have "lex3 (date_meas end_y next_start) (date_meas end_y week_start_date)" by simp
  then show "((end_y, next_start, Some x2a, xb, xa), end_y, week_start_date, week_number_prev, wds, c)
        \<in> inv_image {(p, q). lex3 p q} (\<lambda>(end_y, ws, _). date_meas end_y ws)"
    by simp
qed

text \<open>
  \<^verbatim>\<open>build_weeks\<close> starts on the Sunday on or before January 1st of the epoch year. The
  result is the exception that ended the method (if any), the Builder with its
  \<open>week_dicts\<close>, and the cache: what was written before an exception stays written.
\<close>

definition build_weeks :: "Builder \<Rightarrow> cache \<Rightarrow> error option \<times> Builder \<times> cache" where
  "build_weeks b c =
     (case dtdate (epoch_year b) 1 1 of Inl e \<Rightarrow> (Some e, b, c) | Inr jan1_date \<Rightarrow>
        let jan1_day_of_week = strftime_w jan1_date
        in case date_add jan1_date (- jan1_day_of_week) of Inl e \<Rightarrow> (Some e, b, c)
           | Inr week_start_date \<Rightarrow>
               (case build_weeks_loop (end_year b) week_start_date None (week_dicts b) c of
                  (r, wds, c') \<Rightarrow> (r, b\<lparr>week_dicts := wds\<rparr>, c')))"

section \<open>Builder.build_years\<close>

text \<open>\<^verbatim>\<open>tuple.index(x)\<close> and \<^verbatim>\<open>max(...)\<close> raise ValueError when there is nothing to return.\<close>

fun list_index :: "'a list \<Rightarrow> 'a \<Rightarrow> error + int" where
  "list_index [] x = Inl ValueError"
| "list_index (y # ys) x =
     (if y = x then Inr 0
      else case list_index ys x of Inl e \<Rightarrow> Inl e | Inr i \<Rightarrow> Inr (i + 1))"

definition max_of :: "int list \<Rightarrow> error + int" where
  "max_of xs = (case xs of [] \<Rightarrow> Inl ValueError | x # rest \<Rightarrow> Inr (fold max rest x))"

definition build_year :: "Builder \<Rightarrow> int \<Rightarrow> cache \<Rightarrow> error option \<times> cache" where
  "build_year b y c =
     (case dtdate y 1 1 of Inl e \<Rightarrow> (Some e, c) | Inr date_start' \<Rightarrow>
      case dtdate y 12 31 of Inl e \<Rightarrow> (Some e, c) | Inr date_end' \<Rightarrow>
        let days_in_year = date_sub date_end' date_start' + 1;
            jan_one_dayname = upper (strftime_a date_start')
        in case list_index (map name_short (weekday_names b)) jan_one_dayname of
             Inl e \<Rightarrow> (Some ValueError, c)
           | Inr i \<Rightarrow>
              (case max_of (map wd_week_number
                        (filter (\<lambda>week. wd_year week = y) (week_dicts b))) of
                 Inl e \<Rightarrow> (Some e, c)
               | Inr max_week_number \<Rightarrow>
                   (None,
                    write_single_year
                      \<lparr>yd_year = y, yd_date_start = strftime_mdY date_start',
                       yd_date_end = strftime_mdY date_end', yd_days_in_year = days_in_year,
                       yd_jan_one_dayname = jan_one_dayname, yd_jan_one_weekpos = i + 1,
                       yd_max_week_number = max_week_number\<rparr> c)))"

fun build_years_loop :: "Builder \<Rightarrow> int list \<Rightarrow> cache \<Rightarrow> error option \<times> cache" where
  "build_years_loop b [] c = (None, c)"
| "build_years_loop b (y # ys) c =
     (case build_year b y c of
        (Some e, c') \<Rightarrow> (Some e, c')
      | (None, c') \<Rightarrow> build_years_loop b ys c')"

definition build_years :: "Builder \<Rightarrow> cache \<Rightarrow> error option \<times> cache" where
  "build_years b c = build_years_loop b (years b) (write_years (years b) c)"

section \<open>Builder.build_days\<close>

definition day_dict_of :: "date \<Rightarrow> int \<times> int \<Rightarrow> day_dict" where
  "day_dict_of date_foo week_tuple =
     \<lparr>dd_date = date_foo, dd_date_as_string = strftime_Ymd date_foo,
      dd_weekday_name = strftime_A date_foo, dd_weekday_name_short = strftime_a date_foo,
      dd_day_of_month = strftime_d date_foo, dd_month_in_year_int = strftime_m date_foo,
      dd_month_in_year_str = strftime_B date_foo, dd_year = year date_foo,
      dd_day_of_year = strftime_j_str date_foo, dd_week_year = fst week_tuple,
      dd_week_number = snd week_tuple, dd_index_in_week = strftime_w date_foo + 1\<rparr>"

fun build_days_loop :: "(error + date) list \<Rightarrow> cache \<Rightarrow> error option \<times> cache" where
  "build_days_loop [] c = (None, c)"
| "build_days_loop (Inl e # rest) c = (Some e, c)"
| "build_days_loop (Inr date_foo # rest) c =
     (case date_to_week_tuple date_foo of
        Inl e \<Rightarrow> (Some e, c)
      | Inr week_tuple \<Rightarrow>
          build_days_loop rest (write_single_day (day_dict_of date_foo week_tuple) c))"

definition build_days :: "Builder \<Rightarrow> cache \<Rightarrow> error option \<times> cache" where
  "build_days b c =
     (case dtdate (epoch_year b) 1 1 of Inl e \<Rightarrow> (Some e, c) | Inr start_date \<Rightarrow>
      case dtdate (end_year b) 12 31 of Inl e \<Rightarrow> (Some e, c) | Inr end_date \<Rightarrow>
        build_days_loop (date_range start_date end_date) c)"

section \<open>Builder.build_all\<close>

definition build_all ::
  "frappe_db \<Rightarrow> int option \<Rightarrow> int option \<Rightarrow> string \<Rightarrow> cache \<Rightarrow> error option \<times> cache" where
  "build_all db epoch_year_arg end_year_arg start_of_week c =
     (case Builder_init db epoch_year_arg end_year_arg start_of_week of
        Inl e \<Rightarrow> (Some e, c)
      | Inr instance \<Rightarrow>
         (case build_weeks instance c of
            (Some e, instance1, c1) \<Rightarrow> (Some e, c1)
          | (None, instance1, c1) \<Rightarrow>
             (case build_years instance1 c1 of
                (Some e, c2) \<Rightarrow> (Some e, c2)
              | (None, c2) \<Rightarrow> build_days instance1 c2)))"

section \<open>Reading weeks\<close>

text \<open>
  \<^verbatim>\<open>get_week_by_weeknum\<close> returns a \<open>Week\<close>, \<^verbatim>\<open>None\<close> or raises; with it comes the
  cache, which the rebuild on a miss has changed. \<open>Builder.build_all()\<close> without
  arguments is \<open>build_all db None None ''SUN''\<close>.
\<close>

definition get_week_by_weeknum ::
  "frappe_db \<Rightarrow> cache \<Rightarrow> int \<Rightarrow> int \<Rightarrow> (error + Week option) \<times> cache" where
  "get_week_by_weeknum db c y week_num =
     (case read_single_week c y week_num of
        None \<Rightarrow>
          (case build_all db None None ''SUN'' c of
             (Some e, c') \<Rightarrow> (Inl e, c')
           | (None, c') \<Rightarrow>
               if db_debug_mode db then (Inl KeyError, c') else (Inr None, c'))
      | Some week_dict \<Rightarrow>
          (Inr (Some (Week_init (wd_year week_dict) (wd_week_number week_dict)
                  (wd_week_dates week_dict) (wd_week_start week_dict) (wd_week_end week_dict))),
           c))"

text \<open>
  The same function with a count of the rebuilds: the state is the cache together with
  the number of times \<open>Builder.build_all()\<close> has run, and each run adds one.
\<close>

definition build_all_counted :: "frappe_db \<Rightarrow> cache \<times> nat \<Rightarrow> error option \<times> (cache \<times> nat)" where
  "build_all_counted db s =
     (case build_all db None None ''SUN'' (fst s) of (r, c') \<Rightarrow> (r, (c', Suc (snd s))))"

definition get_week_by_weeknum_counted ::
  "frappe_db \<Rightarrow> cache \<times> nat \<Rightarrow> int \<Rightarrow> int \<Rightarrow> (error + Week option) \<times> (cache \<times> nat)" where
  "get_week_by_weeknum_counted db s y week_num =
     (case read_single_week (fst s) y week_num of
        None \<Rightarrow>
          (case build_all_counted db s of
             (Some e, s') \<Rightarrow> (Inl e, s')
           | (None, s') \<Rightarrow>
               if db_debug_mode db then (Inl KeyError, s') else (Inr None, s'))
      | Some week_dict \<Rightarrow>
          (Inr (Some (Week_init (wd_year week_dict) (wd_week_number week_dict)
                  (wd_week_dates week_dict) (wd_week_start week_dict) (wd_week_end week_dict))),
           s))"

definition get_date_metadata :: "cache \<Rightarrow> date \<Rightarrow> day_dict option" where
  "get_date_metadata c any_date = read_single_day c any_date"

definition week_of_date_dict ::
  "frappe_db \<Rightarrow> cache \<Rightarrow> day_dict \<Rightarrow> (error + Week) \<times> cache" where
  "week_of_date_dict db c date_dict =
     (case get_week_by_weeknum db c (dd_week_year date_dict) (dd_week_number date_dict) of
        (Inl e, c') \<Rightarrow> (Inl e, c')
      | (Inr None, c') \<Rightarrow> (Inl Exception, c')
      | (Inr (Some result_week), c') \<Rightarrow> (Inr result_week, c'))"

definition get_week_by_anydate :: "frappe_db \<Rightarrow> cache \<Rightarrow> date \<Rightarrow> (error + Week) \<times> cache" where
  "get_week_by_anydate db c any_date =
     (case get_date_metadata c any_date of
        None \<Rightarrow>
          (case build_all db None None ''SUN'' c of
             (Some e, c1) \<Rightarrow> (Inl e, c1)
           | (None, c1) \<Rightarrow>
              (case get_date_metadata c1 any_date of
                 None \<Rightarrow> (Inl KeyError, c1)
               | Some date_dict \<Rightarrow> week_of_date_dict db c1 date_dict))
      | Some date_dict \<Rightarrow> week_of_date_dict db c date_dict)"

text \<open>
  \<^verbatim>\<open>get_weeks_as_dict\<close>, after its three arguments have been converted by \<^verbatim>\<open>int(...)\<close>.
\<close>

definition get_weeks_as_dict :: "cache \<Rightarrow> int \<Rightarrow> int \<Rightarrow> int \<Rightarrow> error + week_dict list" where
  "get_weeks_as_dict c y from_week_num to_week_num =
     (if \<not> in_range y MIN_YEAR MAX_YEAR then Inl Exception
      else if \<not> in_range from_week_num 1 54 then Inl Exception
      else if \<not> in_range to_week_num 1 54 then Inl Exception
      else Inr (List.map_filter (\<lambda>week_num. read_single_week c y week_num)
                  [from_week_num .. to_week_num]))"

section \<open>week_generator\<close>

text \<open>
  The generator, run to its end: the values it yields, the exception that ends it (if
  any) and the cache after. Dates compare as their (year, month, day) triples. The two
  tests \<^verbatim>\<open>if not from_week\<close> and \<^verbatim>\<open>if not to_week\<close> never fire, since
  \<^verbatim>\<open>get_week_by_anydate\<close> returns a \<open>Week\<close> object or raises.
\<close>

definition date_less :: "date \<Rightarrow> date \<Rightarrow> bool" where
  "date_less a b =
     (year a < year b \<or> (year a = year b \<and>
        (month a < month b \<or> (month a = month b \<and> day a < day b))))"

fun week_nums_loop ::
  "frappe_db \<Rightarrow> int \<Rightarrow> int list \<Rightarrow> cache \<Rightarrow> Week option list \<times> error option \<times> cache" where
  "week_nums_loop db y [] c = ([], None, c)"
| "week_nums_loop db y (week_num # rest) c =
     (case get_week_by_weeknum db c y week_num of
        (Inl e, c') \<Rightarrow> ([], Some e, c')
      | (Inr w, c') \<Rightarrow>
          (case week_nums_loop db y rest c' of (ws, r, c'') \<Rightarrow> (w # ws, r, c'')))"

fun week_years_loop ::
  "frappe_db \<Rightarrow> Week \<Rightarrow> Week \<Rightarrow> int list \<Rightarrow> cache \<Rightarrow> Week option list \<times> error option \<times> cache" where
  "week_years_loop db from_week to_week [] c = ([], None, c)"
| "week_years_loop db from_week to_week (y # ys) c =
     (let year_dict = read_single_year c y;
          start_index = (if y = week_year from_week then week_number from_week else 1)
      in case (if y = week_year to_week then Inr (week_number to_week)
               else (case year_dict of None \<Rightarrow> Inl TypeError
                     | Some yd \<Rightarrow> Inr (yd_max_week_number yd))) of
           Inl e \<Rightarrow> ([], Some e, c)
         | Inr end_index \<Rightarrow>
            (case week_nums_loop db y [start_index .. end_index] c of
               (ws, Some e, c') \<Rightarrow> (ws, Some e, c')
             | (ws, None, c') \<Rightarrow>
                 (case week_years_loop db from_week to_week ys c' of
                    (ws', r, c'') \<Rightarrow> (ws @ ws', r, c''))))"

definition week_generator ::
  "frappe_db \<Rightarrow> cache \<Rightarrow> date \<Rightarrow> date \<Rightarrow> Week option list \<times> error option \<times> cache" where
  "week_generator db c from_date to_date =
     (if date_less to_date from_date then ([], Some ValueError, c)
      else
        case (if from_date = to_date
              then (case get_week_by_anydate db c from_date of
                      (Inl e, c1) \<Rightarrow> ([], Some e, c1)
                    | (Inr w, c1) \<Rightarrow> ([Some w], None, c1))
              else ([], None, c)) of
          (ys, Some e, c1) \<Rightarrow> (ys, Some e, c1)
        | (ys, None, c1) \<Rightarrow>
           (case get_week_by_anydate db c1 from_date of
              (Inl e, c2) \<Rightarrow> (ys, Some e, c2)
            | (Inr from_week, c2) \<Rightarrow>
               (case get_week_by_anydate db c2 to_date of
                  (Inl e, c3) \<Rightarrow> (ys, Some e, c3)
                | (Inr to_week, c3) \<Rightarrow>
                   (case week_years_loop db from_week to_week
                           [week_year from_week .. week_year to_week] c3 of
                      (ws, r, c4) \<Rightarrow> (ys @ ws, r, c4)))))"

section \<open>The week tuple in closed form\<close>

lemma year_of_ordinal:
  assumes "valid_date a" "days_before_year y < toordinal a" "toordinal a \<le> days_before_year (y + 1)"
  shows "year a = y"
proof (rule ccontr)
  assume ne: "year a \<noteq> y"
  show False
  proof (cases "year a < y")
    case True
    then have "days_before_year (year a + 1) \<le> days_before_year y"
      by (intro days_before_year_le) simp
    with toordinal_upper[OF assms(1)] assms(2) show False by simp
  next
    case False
    with ne have "days_before_year (y + 1) \<le> days_before_year (year a)"
      by (intro days_before_year_le) simp
    with toordinal_lower[OF assms(1)] assms(3) show False by simp
  qed
qed

lemma valid_jan1: "MINYEAR \<le> y \<Longrightarrow> y \<le> MAXYEAR \<Longrightarrow> valid_date \<lparr>year = y, month = 1, day = 1\<rparr>"
  by (simp add: valid_date_def days_in_month_def)

lemma toordinal_jan1: "toordinal \<lparr>year = y, month = 1, day = 1\<rparr> = days_before_year y + 1"
  by (simp add: toordinal_def days_before_month_def)

lemma valid_dec31: "MINYEAR \<le> y \<Longrightarrow> y \<le> MAXYEAR \<Longrightarrow> valid_date \<lparr>year = y, month = 12, day = 31\<rparr>"
  by (simp add: valid_date_def days_in_month_def)

lemma toordinal_dec31: "toordinal \<lparr>year = y, month = 12, day = 31\<rparr> = days_before_year (y + 1)"
  by (simp add: toordinal_def days_before_month_def days_before_year_Suc)

lemma jan1_eq: "valid_date d \<Longrightarrow> jan1 d = Inr \<lparr>year = year d, month = 1, day = 1\<rparr>"
  by (simp add: jan1_def dtdate_eq valid_date_def days_in_month_def)

lemma jan1_next_year_eq:
  "valid_date d \<Longrightarrow> year d < MAXYEAR \<Longrightarrow>
     jan1_next_year d = Inr \<lparr>year = year d + 1, month = 1, day = 1\<rparr>"
  by (simp add: jan1_next_year_def dtdate_eq valid_date_def days_in_month_def MINYEAR_def)

lemma jan1_next_year_overflow:
  "year d = MAXYEAR \<Longrightarrow> jan1_next_year d = Inl ValueError"
  by (simp add: jan1_next_year_def dtdate_eq valid_date_def fits_c_int_def MAXYEAR_def)

lemma date_to_week_tuple_MAXYEAR:
  "valid_date d \<Longrightarrow> year d = MAXYEAR \<Longrightarrow> date_to_week_tuple d = Inl ValueError"
  by (simp add: date_to_week_tuple_def jan1_eq jan1_next_year_overflow)

lemma day_of_year_eq: "day_of_year d = toordinal d - days_before_year (year d)"
  by (simp add: day_of_year_def strftime_j_def toordinal_def)

lemma is_jan1_iff:
  assumes "valid_date d"
  shows "(day d = 1 \<and> month d = 1) \<longleftrightarrow> toordinal d = days_before_year (year d) + 1"
proof
  assume "day d = 1 \<and> month d = 1"
  then show "toordinal d = days_before_year (year d) + 1"
    by (simp add: toordinal_def days_before_month_def)
next
  assume h: "toordinal d = days_before_year (year d) + 1"
  have v: "valid_date \<lparr>year = year d, month = 1, day = 1\<rparr>"
    using assms by (intro valid_jan1) (simp_all add: valid_date_def)
  have "d = \<lparr>year = year d, month = 1, day = 1\<rparr>"
    using h by (intro toordinal_inj[OF assms v]) (simp add: toordinal_jan1)
  then show "day d = 1 \<and> month d = 1"
    by (metis date.select_convs(2,3))
qed

lemma int_truediv_nonneg: "0 \<le> a \<Longrightarrow> int_truediv a 7 = a div 7"
  by (cases "a = 0") (simp_all add: int_truediv_def)

lemma first_sunday:
  assumes "MINYEAR \<le> y" "y \<le> MAXYEAR"
  defines "J \<equiv> days_before_year y + 1"
  shows "\<exists>F. add_relativedelta_SU \<lparr>year = y, month = 1, day = 1\<rparr> = Inr F \<and> valid_date F
           \<and> toordinal F = J + (- J) mod 7 \<and> year F = y"
proof -
  let ?j = "\<lparr>year = y, month = 1, day = 1\<rparr>"
  have v: "valid_date ?j" using assms by (intro valid_jan1)
  have tj: "toordinal ?j = J" by (simp add: toordinal_jan1 J_def)
  have "(7 - (J + 6) mod 7 + 6) mod 7 = (13 - (J + 6)) mod 7"
    by (simp add: mod_diff_right_eq)
  also have "\<dots> = (- J + 7) mod 7" by (simp add: algebra_simps)
  also have "\<dots> = (- J) mod 7" by simp
  finally have k: "(7 - weekday ?j + 6) mod 7 = (- J) mod 7"
    unfolding weekday_def tj .
  have kb: "0 \<le> (- J) mod 7" "(- J) mod 7 < 7" by simp_all
  have up: "J + 6 \<le> days_before_year (y + 1)"
    using days_before_year_step_le[of y] by (simp add: J_def)
  have "days_before_year (y + 1) \<le> days_before_year (MAXYEAR + 1)"
    using assms by (intro days_before_year_le) simp
  with up kb have "toordinal ?j + (- J) mod 7 \<le> days_before_year (MAXYEAR + 1)"
    unfolding tj by linarith
  moreover have "1 \<le> toordinal ?j + (- J) mod 7"
    using toordinal_lower[OF v] kb days_before_year_le[of 1 y] assms(1) unfolding tj
    by (simp add: MINYEAR_def days_before_year_def J_def)
  ultimately obtain F where F: "date_add ?j ((- J) mod 7) = Inr F"
    using date_add_ok[OF v] by blast
  from date_add_toordinal[OF v F] have vF: "valid_date F" and tF: "toordinal F = J + (- J) mod 7"
    by (simp_all add: tj)
  have "year F = y"
    using kb up tF by (intro year_of_ordinal[OF vF]) (simp_all add: J_def)
  with F vF tF show ?thesis unfolding add_relativedelta_SU_def k by blast
qed

text \<open>The Sunday-based week of a date and of a year's January 1st, used in the proofs.\<close>

definition week_index :: "date \<Rightarrow> int" where
  "week_index d = toordinal d div 7"

definition jan1_week :: "int \<Rightarrow> int" where
  "jan1_week y = (days_before_year y + 1) div 7"

lemma divmod7:
  fixes n :: int
  obtains q r where "n = 7 * q + r" "0 \<le> r" "r < 7" "n div 7 = q" "n mod 7 = r"
proof -
  have "n = 7 * (n div 7) + n mod 7" "0 \<le> n mod 7" "n mod 7 < 7" by simp_all
  then show ?thesis using that by blast
qed

lemma div7_eq: "n = 7 * q + r \<Longrightarrow> 0 \<le> r \<Longrightarrow> r < 7 \<Longrightarrow> n div 7 = (q::int)"
  by (rule int_div_pos_eq)

lemma mod7_eq: "n = 7 * q + r \<Longrightarrow> 0 \<le> r \<Longrightarrow> r < 7 \<Longrightarrow> n mod 7 = (r::int)"
  by (rule int_mod_pos_eq)

lemma neg_mod7:
  fixes J :: int
  assumes "J = 7 * q + r" "0 \<le> r" "r < 7"
  shows "(- J) mod 7 = (if r = 0 then 0 else 7 - r)"
proof (cases "r = 0")
  case True
  then have "- J = 7 * (- q) + 0" using assms(1) by simp
  then have "(- J) mod 7 = 0" by (rule mod7_eq) simp_all
  with True show ?thesis by simp
next
  case False
  then have "- J = 7 * (- q - 1) + (7 - r)" using assms(1) by simp
  then have "(- J) mod 7 = 7 - r" by (rule mod7_eq) (use False assms(2,3) in simp_all)
  with False show ?thesis by simp
qed

text \<open>
  The week tuple in closed form. Weeks are counted by \<open>toordinal div 7\<close>, which changes
  exactly on Sundays: the date belongs to week 1 of next year when it shares its week with
  next January 1st, and otherwise its week number is the distance, in weeks, from the week
  of this year's January 1st, plus one.
\<close>

lemma date_to_week_tuple_closed:
  assumes v: "valid_date d" and y: "year d < MAXYEAR"
  shows "date_to_week_tuple d =
     Inr (if week_index d = jan1_week (year d + 1) then (year d + 1, 1)
          else (year d, week_index d - jan1_week (year d) + 1))"
proof -
  define n where "n = toordinal d"
  define J where "J = days_before_year (year d) + 1"
  define Jn where "Jn = days_before_year (year d + 1) + 1"
  let ?j1 = "\<lparr>year = year d, month = 1, day = 1\<rparr>"
  let ?j1n = "\<lparr>year = year d + 1, month = 1, day = 1\<rparr>"
  have yb: "MINYEAR \<le> year d" "year d \<le> MAXYEAR" using v by (simp_all add: valid_date_def)
  from first_sunday[OF yb] obtain F where
    F: "add_relativedelta_SU ?j1 = Inr F" "valid_date F" "toordinal F = J + (- J) mod 7"
      "year F = year d"
    unfolding J_def by blast
  obtain qn rn where qn: "n = 7 * qn + rn" "0 \<le> rn" "rn < 7" "n div 7 = qn" "n mod 7 = rn"
    by (rule divmod7)
  obtain qJ rJ where qJ: "J = 7 * qJ + rJ" "0 \<le> rJ" "rJ < 7" "J div 7 = qJ" "J mod 7 = rJ"
    by (rule divmod7)
  obtain qN rN where qN: "Jn = 7 * qN + rN" "0 \<le> rN" "rN < 7" "Jn div 7 = qN" "Jn mod 7 = rN"
    by (rule divmod7)
  have negJ: "(- J) mod 7 = (if rJ = 0 then 0 else 7 - rJ)"
    using qJ(1-3) by (rule neg_mod7)
  have b: "J \<le> n" "n < Jn" "Jn = J + 365 \<or> Jn = J + 366"
    using toordinal_lower[OF v] toordinal_upper[OF v] days_before_year_Suc[of "year d"]
    by (auto simp: n_def J_def Jn_def)
  have c1: "(day d = 1 \<and> month d = 1) \<longleftrightarrow> n = J"
    using is_jan1_iff[OF v] by (simp add: n_def J_def)
  have wi: "week_index d = qn" "jan1_week (year d) = qJ" "jan1_week (year d + 1) = qN"
    using qn(4) qJ(4) qN(4) by (simp_all add: week_index_def jan1_week_def n_def J_def Jn_def)
  have dow: "day_of_week_int d = rn + 1" "day_of_week_int ?j1 = rJ + 1"
    "day_of_week_int ?j1n = rN + 1"
    using qn(5) qJ(5) qN(5)
    by (simp_all add: day_of_week_int_def toordinal_jan1 n_def J_def Jn_def)
  have sub: "date_sub d ?j1 = n - J" "date_sub ?j1n d = Jn - n"
    by (simp_all add: date_sub_def toordinal_jan1 n_def J_def Jn_def)
  have doy: "day_of_year d = n - J + 1" "day_of_year F = (- J) mod 7 + 1"
    using F(3,4) by (simp_all add: day_of_year_eq n_def J_def)
  note unf = date_to_week_tuple_def jan1_eq[OF v] jan1_next_year_eq[OF v y] day_of_month_def
    month_of_year_def dow sub in_range_def wi
  have "n = J \<or> (n \<noteq> J \<and> rn > rJ \<and> 1 \<le> n - J \<and> n - J < 7)
    \<or> (n \<noteq> J \<and> \<not> (rn > rJ \<and> 1 \<le> n - J \<and> n - J < 7) \<and> rn < rN \<and> 1 \<le> Jn - n \<and> Jn - n < 7)
    \<or> (n \<noteq> J \<and> \<not> (rn > rJ \<and> 1 \<le> n - J \<and> n - J < 7) \<and> \<not> (rn < rN \<and> 1 \<le> Jn - n \<and> Jn - n < 7))"
    by blast
  then consider (a) "n = J"
    | (b) "n \<noteq> J" "rn > rJ" "1 \<le> n - J" "n - J < 7"
    | (c) "n \<noteq> J" "\<not> (rn > rJ \<and> 1 \<le> n - J \<and> n - J < 7)" "rn < rN" "1 \<le> Jn - n" "Jn - n < 7"
    | (e) "n \<noteq> J" "\<not> (rn > rJ \<and> 1 \<le> n - J \<and> n - J < 7)" "\<not> (rn < rN \<and> 1 \<le> Jn - n \<and> Jn - n < 7)"
    by blast
  then show ?thesis
  proof cases
    case a
    have "qn \<noteq> qN" "qn = qJ" using a b qn(1-3) qJ(1-3) qN(1-3) by arith+
    moreover have "date_to_week_tuple d = Inr (year d, 1)"
      using a c1 by (simp add: unf)
    ultimately show ?thesis by (simp add: wi)
  next
    case b
    have "qn \<noteq> qN" "qn = qJ" using b \<open>J \<le> n\<close> \<open>n < Jn\<close> \<open>Jn = J + 365 \<or> Jn = J + 366\<close>
        qn(1-3) qJ(1-3) qN(1-3) by arith+
    moreover have "date_to_week_tuple d = Inr (year d, 1)"
      using b c1 by (simp add: unf)
    ultimately show ?thesis by (simp add: wi)
  next
    case c
    have "qn = qN" using c qn(1-3) qN(1-3) by arith
    moreover have "date_to_week_tuple d = Inr (year d + 1, 1)"
      using c c1 by (simp add: unf)
    ultimately show ?thesis by (simp add: wi)
  next
    case e
    have ne: "qn \<noteq> qN" using e(3) \<open>n < Jn\<close> qn(1-3) qN(1-3) by arith
    have ge: "qJ < qn" using e(1,2) \<open>J \<le> n\<close> qn(1-3) qJ(1-3) by arith
    have "day_of_year d - day_of_year F = n - J - (- J) mod 7" by (simp add: doy)
    also have "\<dots> = n - J - (if rJ = 0 then 0 else 7 - rJ)" by (simp only: negJ)
    also have "\<dots> = 7 * (qn - qJ - (if rJ = 0 then 0 else 1)) + rn"
      using qn(1) qJ(1) by simp
    finally have delta:
      "day_of_year d - day_of_year F = 7 * (qn - qJ - (if rJ = 0 then 0 else 1)) + rn" .
    then have "(day_of_year d - day_of_year F) div 7 = qn - qJ - (if rJ = 0 then 0 else 1)"
      using qn(2,3) by (intro div7_eq) simp_all
    moreover have "0 \<le> day_of_year d - day_of_year F"
      using delta ge qn(2) by (simp split: if_splits)
    ultimately have tr: "int_truediv (day_of_year d - day_of_year F) 7
        = qn - qJ - (if rJ = 0 then 0 else 1)"
      by (simp add: int_truediv_nonneg)
    have "(day_of_year F = 1) \<longleftrightarrow> (- J) mod 7 = 0" by (simp add: doy)
    also have "\<dots> \<longleftrightarrow> rJ = 0" using qJ(2,3) by (simp only: negJ) simp
    finally have ffw: "(day_of_year F = 1) \<longleftrightarrow> rJ = 0" .
    have n1: "\<not> (day_of_month d = 1 \<and> month_of_year d = 1)"
      using e(1) c1 by (simp add: day_of_month_def month_of_year_def)
    have n2: "\<not> (day_of_week_int d > day_of_week_int ?j1 \<and> in_range (date_sub d ?j1) 1 7)"
      using e(2) by (simp add: dow sub in_range_def)
    have n3: "\<not> (day_of_week_int d < day_of_week_int ?j1n \<and> in_range (date_sub ?j1n d) 1 7)"
      using e(3) by (simp add: dow sub in_range_def)
    have "date_to_week_tuple d = Inr (year d, qn - qJ + 1)"
      unfolding date_to_week_tuple_def jan1_eq[OF v] jan1_next_year_eq[OF v y]
      by (simp add: n1 n2 n3 F(1) tr ffw Let_def)
    with ne show ?thesis by (simp add: wi)
  qed
qed

section \<open>Date ranges\<close>

lemma collect_map_Inr:
  "(\<forall>x\<in>set xs. \<exists>y. f x = Inr y) \<Longrightarrow> collect (map f xs) = Inr (map (\<lambda>x. projr (f x)) xs)"
  by (induction xs) auto

lemma toordinal_le_max: "valid_date d \<Longrightarrow> toordinal d \<le> days_before_year (MAXYEAR + 1)"
proof -
  assume v: "valid_date d"
  then have "year d + 1 \<le> MAXYEAR + 1" by (simp add: valid_date_def)
  then have "days_before_year (year d + 1) \<le> days_before_year (MAXYEAR + 1)"
    by (rule days_before_year_le)
  with toordinal_upper[OF v] show ?thesis by simp
qed

lemma toordinal_ge_1: "valid_date d \<Longrightarrow> 1 \<le> toordinal d"
proof -
  assume v: "valid_date d"
  then have "1 \<le> year d" by (simp add: valid_date_def MINYEAR_def)
  then have "days_before_year 1 \<le> days_before_year (year d)" by (rule days_before_year_le)
  with toordinal_lower[OF v] show ?thesis by (simp add: days_before_year_def)
qed

lemma date_add_between:
  assumes "valid_date a" "valid_date b" "0 \<le> i" "toordinal a + i \<le> toordinal b"
  shows "\<exists>d. date_add a i = Inr d \<and> valid_date d \<and> toordinal d = toordinal a + i"
proof -
  have "1 \<le> toordinal a + i" using toordinal_ge_1[OF assms(1)] assms(3) by simp
  moreover have "toordinal a + i \<le> days_before_year (MAXYEAR + 1)"
    using toordinal_le_max[OF assms(2)] assms(4) by simp
  ultimately obtain d where d: "date_add a i = Inr d" using date_add_ok[OF assms(1)] by blast
  with date_add_toordinal[OF assms(1) d] show ?thesis by simp
qed

lemma date_range_collect:
  assumes "valid_date a" "valid_date b"
  shows "\<exists>ds. collect (date_range a b) = Inr ds
      \<and> length ds = nat (toordinal b - toordinal a + 1)
      \<and> set ds = {d. valid_date d \<and> toordinal a \<le> toordinal d \<and> toordinal d \<le> toordinal b}"
proof -
  let ?n = "nat (date_sub b a + 1)"
  let ?f = "\<lambda>k. date_add a (int k)"
  have ex: "\<exists>d. ?f k = Inr d \<and> valid_date d \<and> toordinal d = toordinal a + int k" if "k < ?n" for k
    using that by (intro date_add_between[OF assms]) (simp_all add: date_sub_def)
  have "\<forall>k\<in>set [0..<?n]. \<exists>y. ?f k = Inr y"
  proof
    fix k assume "k \<in> set [0..<?n]"
    then have "k < ?n" by simp
    from ex[OF this] show "\<exists>y. ?f k = Inr y" by blast
  qed
  then have c: "collect (date_range a b) = Inr (map (\<lambda>k. projr (?f k)) [0..<?n])"
    unfolding date_range_def by (rule collect_map_Inr)
  have "set (map (\<lambda>k. projr (?f k)) [0..<?n])
      = {d. valid_date d \<and> toordinal a \<le> toordinal d \<and> toordinal d \<le> toordinal b}"
  proof (intro set_eqI iffI)
    fix d assume "d \<in> set (map (\<lambda>k. projr (?f k)) [0..<?n])"
    then obtain k where k: "k < ?n" "d = projr (?f k)" by auto
    from ex[OF k(1)] k(2) have "valid_date d" "toordinal d = toordinal a + int k" by auto
    with k(1) show "d \<in> {d. valid_date d \<and> toordinal a \<le> toordinal d \<and> toordinal d \<le> toordinal b}"
      by (simp add: date_sub_def)
  next
    fix d assume "d \<in> {d. valid_date d \<and> toordinal a \<le> toordinal d \<and> toordinal d \<le> toordinal b}"
    then have d: "valid_date d" "toordinal a \<le> toordinal d" "toordinal d \<le> toordinal b" by auto
    let ?k = "nat (toordinal d - toordinal a)"
    have kn: "?k < ?n" using d by (simp add: date_sub_def)
    from ex[OF kn] obtain d' where d': "?f ?k = Inr d'" "valid_date d'"
      "toordinal d' = toordinal a + int ?k" by blast
    then have "d' = d" using d by (intro toordinal_inj) simp_all
    with d'(1) have "d = projr (?f ?k)" by simp
    moreover have "?k \<in> set [0..<?n]" using kn by simp
    ultimately show "d \<in> set (map (\<lambda>k. projr (?f k)) [0..<?n])"
      unfolding set_map by (rule image_eqI)
  qed
  with c show ?thesis by (simp add: date_sub_def)
qed

section \<open>The weeks that build_weeks writes\<close>

text \<open>
  \<open>week_ok\<close> describes a record that \<open>build_weeks\<close> writes: it starts on a Sunday, ends
  six days later, lists the dates in between, takes its year from its last day and counts
  its number from the week of that year's January 1st. \<open>prev_ok\<close> is the loop invariant
  for the week number carried from one pass to the next.
\<close>

definition week_ok :: "week_dict \<Rightarrow> bool" where
  "week_ok w =
     (valid_date (wd_week_start w) \<and> toordinal (wd_week_start w) mod 7 = 0 \<and>
      date_add (wd_week_start w) 6 = Inr (wd_week_end w) \<and>
      collect (date_range (wd_week_start w) (wd_week_end w)) = Inr (wd_week_dates w) \<and>
      wd_year w = year (wd_week_end w) \<and>
      wd_week_number w = week_index (wd_week_start w) - jan1_week (year (wd_week_end w)) + 1)"

definition prev_ok :: "date \<Rightarrow> int option \<Rightarrow> bool" where
  "prev_ok ws prev =
     (case prev of
        None \<Rightarrow> \<exists>y. toordinal ws \<le> days_before_year y + 1 \<and> days_before_year y + 1 \<le> toordinal ws + 6
      | Some p \<Rightarrow> \<not> (day ws = 1 \<and> month ws = 1) \<longrightarrow> p = week_index ws - jan1_week (year ws))"

lemma week_number_step:
  assumes ws: "valid_date ws" "toordinal ws mod 7 = 0"
    and we: "valid_date we" "toordinal we = toordinal ws + 6"
    and p: "prev_ok ws prev"
  shows "(if day ws = 1 \<and> month ws = 1 then Inr 1
          else if year ws < year we then Inr 1
          else case prev of None \<Rightarrow> Inl TypeError | Some n \<Rightarrow> Inr (n + 1))
         = Inr (week_index ws - jan1_week (year we) + 1)"
proof -
  obtain q where q: "toordinal ws = 7 * q" "week_index ws = q"
    using ws(2) by (auto simp: week_index_def elim!: dvdE dest!: mod_0_imp_dvd)
  have ywe: "days_before_year (year we) < toordinal ws + 6" "toordinal ws + 6 \<le> days_before_year (year we + 1)"
    using toordinal_lower[OF we(1)] toordinal_upper[OF we(1)] we(2) by simp_all
  have yle: "year ws \<le> year we" using toordinal_year_mono[OF ws(1) we(1)] we(2) by simp
  consider (a) "day ws = 1 \<and> month ws = 1"
    | (b) "\<not> (day ws = 1 \<and> month ws = 1)" "year ws < year we"
    | (c) "\<not> (day ws = 1 \<and> month ws = 1)" "year ws = year we"
    using yle by fastforce
  then show ?thesis
  proof cases
    case a
    then have j: "toordinal ws = days_before_year (year ws) + 1" using is_jan1_iff[OF ws(1)] by simp
    have "year we = year ws"
      using j we(2) days_before_year_step_le[of "year ws"] by (intro year_of_ordinal[OF we(1)]) simp_all
    then have "jan1_week (year we) = q"
      using j q(1) by (simp add: jan1_week_def)
    with a q(2) show ?thesis by simp
  next
    case b
    have "toordinal ws \<le> days_before_year (year ws + 1)" by (rule toordinal_upper[OF ws(1)])
    also have "\<dots> \<le> days_before_year (year we)" using b(2) by (intro days_before_year_le) simp
    finally have lo: "7 * q < days_before_year (year we) + 1" using q(1) by simp
    have "days_before_year (year we) + 1 = 7 * q + (days_before_year (year we) + 1 - 7 * q)" by simp
    then have "(days_before_year (year we) + 1) div 7 = q"
      by (rule div7_eq) (use lo ywe(1) q(1) in simp_all)
    then have "jan1_week (year we) = q" by (simp add: jan1_week_def)
    with b q(2) show ?thesis by simp
  next
    case c
    have "\<exists>n. prev = Some n \<and> n = week_index ws - jan1_week (year ws)"
    proof (cases prev)
      case None
      with p obtain y where y: "toordinal ws \<le> days_before_year y + 1"
        "days_before_year y + 1 \<le> toordinal ws + 6" by (auto simp: prev_ok_def)
      have nj: "toordinal ws \<noteq> days_before_year (year ws) + 1" using c(1) is_jan1_iff[OF ws(1)] by simp
      have "y \<le> year we"
      proof (rule ccontr)
        assume "\<not> y \<le> year we"
        then have "days_before_year (year we + 1) \<le> days_before_year y"
          by (intro days_before_year_le) simp
        with y(2) ywe(2) show False by simp
      qed
      moreover have "year ws < y"
      proof (rule ccontr)
        assume "\<not> year ws < y"
        then have "days_before_year y \<le> days_before_year (year ws)"
          by (intro days_before_year_le) simp
        with y(1) toordinal_lower[OF ws(1)] nj show False by simp
      qed
      ultimately show ?thesis using c(2) by simp
    next
      case (Some n)
      with p c(1) show ?thesis by (simp add: prev_ok_def)
    qed
    with c show ?thesis by auto
  qed
qed

lemma prev_ok_next:
  assumes we: "valid_date we" and nx: "valid_date nxt" "toordinal nxt = toordinal we + 1"
    and "week_index nxt = wi + 1"
  shows "prev_ok nxt (Some (wi - jan1_week (year we) + 1))"
proof -
  have "year nxt = year we" if h: "\<not> (day nxt = 1 \<and> month nxt = 1)"
  proof -
    have "toordinal nxt \<noteq> days_before_year (year nxt) + 1" using h is_jan1_iff[OF nx(1)] by simp
    with toordinal_lower[OF nx(1)] have "days_before_year (year nxt) < toordinal we"
      using nx(2) by simp
    moreover have "toordinal we \<le> days_before_year (year nxt + 1)"
      using toordinal_upper[OF nx(1)] nx(2) by simp
    ultimately show ?thesis using year_of_ordinal[OF we] by simp
  qed
  then show ?thesis using assms(4) by (auto simp: prev_ok_def)
qed

lemma build_weeks_loop_inv:
  "valid_date ws \<Longrightarrow> toordinal ws mod 7 = 0 \<Longrightarrow> prev_ok ws prev \<Longrightarrow> E < MAXYEAR \<Longrightarrow>
   \<exists>new. build_weeks_loop E ws prev wds c = (None, wds @ new, fold write_single_week new c)
     \<and> (\<forall>w\<in>set new. week_ok w \<and> toordinal ws \<le> toordinal (wd_week_start w)
            \<and> year (wd_week_start w) \<le> E)
     \<and> (\<forall>d. valid_date d \<and> toordinal ws \<le> toordinal d \<and> year d \<le> E
            \<longrightarrow> (\<exists>w\<in>set new. d \<in> set (wd_week_dates w)))"
proof (induction E ws prev wds c rule: build_weeks_loop.induct)
  case (1 E ws prev wds c)
  note ws = "1.prems"(1,2) and E = "1.prems"(4)
  show ?case
  proof (cases "E < year ws")
    case True
    have "build_weeks_loop E ws prev wds c = (None, wds, c)"
      using True by (subst build_weeks_loop.simps) simp
    moreover have "\<not> (valid_date d \<and> toordinal ws \<le> toordinal d \<and> year d \<le> E)" for d
      using toordinal_year_mono[OF ws(1), of d] True by auto
    ultimately show ?thesis by (intro exI[of _ "[]"]) simp
  next
    case False
    have "toordinal ws \<le> days_before_year (year ws + 1)" by (rule toordinal_upper[OF ws(1)])
    also have "\<dots> \<le> days_before_year MAXYEAR" using False E by (intro days_before_year_le) simp
    finally have up: "toordinal ws + 7 \<le> days_before_year (MAXYEAR + 1)"
      using days_before_year_step_le[of MAXYEAR] by simp
    have lo: "1 \<le> toordinal ws" by (rule toordinal_ge_1[OF ws(1)])
    obtain we where we0: "date_add ws 6 = Inr we"
      using date_add_ok[OF ws(1), of 6] up lo by auto
    from date_add_toordinal[OF ws(1) we0] have we: "valid_date we" "toordinal we = toordinal ws + 6"
      by simp_all
    obtain nxt where nxt0: "date_add ws 7 = Inr nxt"
      using date_add_ok[OF ws(1), of 7] up lo by auto
    from date_add_toordinal[OF ws(1) nxt0] have nxt: "valid_date nxt" "toordinal nxt = toordinal ws + 7"
      by simp_all
    from date_range_collect[OF ws(1) we(1)] obtain ds where
      ds: "collect (date_range ws we) = Inr ds"
        "set ds = {d. valid_date d \<and> toordinal ws \<le> toordinal d \<and> toordinal d \<le> toordinal we}"
      by blast
    define wn where "wn = week_index ws - jan1_week (year we) + 1"
    define w where "w = \<lparr>wd_year = year we, wd_week_number = wn, wd_week_start = ws,
      wd_week_end = we, wd_week_dates = ds\<rparr>"
    have branch: "(if day ws = 1 \<and> month ws = 1 then Inr 1
          else if year ws < year we then Inr 1
          else case prev of None \<Rightarrow> Inl TypeError | Some n \<Rightarrow> Inr (n + 1)) = Inr wn"
      unfolding wn_def by (rule week_number_step[OF ws we "1.prems"(3)])
    have wok: "week_ok w"
      using ws we0 ds(1) by (simp add: week_ok_def w_def wn_def)
    have unroll: "build_weeks_loop E ws prev wds c
        = build_weeks_loop E nxt (Some wn) (wds @ [w]) (write_single_week w c)"
      by (subst build_weeks_loop.simps) (simp add: False we0 branch ds(1) nxt0 Let_def w_def)
    have m7: "toordinal nxt mod 7 = 0" using ws(2) nxt(2) by simp
    have wi: "week_index nxt = week_index ws + 1" using nxt(2) by (simp add: week_index_def)
    have pn: "prev_ok nxt (Some wn)"
      unfolding wn_def using we(1) nxt(1) _ wi by (rule prev_ok_next) (simp add: nxt(2) we(2))
    from "1.IH"[OF False we0 branch ds(1) w_def refl refl nxt0 nxt(1) m7 pn E]
    obtain new where new:
      "build_weeks_loop E nxt (Some wn) (wds @ [w]) (write_single_week w c)
         = (None, (wds @ [w]) @ new, fold write_single_week new (write_single_week w c))"
      "\<forall>w\<in>set new. week_ok w \<and> toordinal nxt \<le> toordinal (wd_week_start w)
            \<and> year (wd_week_start w) \<le> E"
      "\<forall>d. valid_date d \<and> toordinal nxt \<le> toordinal d \<and> year d \<le> E
            \<longrightarrow> (\<exists>w\<in>set new. d \<in> set (wd_week_dates w))"
      by blast
    have r: "build_weeks_loop E ws prev wds c
        = (None, wds @ (w # new), fold write_single_week (w # new) c)"
      using unroll new(1) by simp
    have p2: "\<forall>w'\<in>set (w # new). week_ok w' \<and> toordinal ws \<le> toordinal (wd_week_start w')
            \<and> year (wd_week_start w') \<le> E"
      using wok new(2) nxt(2) False by (auto simp: w_def)
    have p3: "\<exists>w'\<in>set (w # new). d \<in> set (wd_week_dates w')"
      if d: "valid_date d \<and> toordinal ws \<le> toordinal d \<and> year d \<le> E" for d
    proof (cases "toordinal d \<le> toordinal we")
      case True
      with d have "d \<in> set ds" by (simp add: ds(2))
      then show ?thesis by (simp add: w_def)
    next
      case False
      then have "toordinal nxt \<le> toordinal d" using nxt(2) we(2) by simp
      with new(3) d show ?thesis by auto
    qed
    from r p2 p3 show ?thesis by blast
  qed
qed

lemma strftime_w_eq: "strftime_w d = toordinal d mod 7"
proof -
  have "((toordinal d + 6) mod 7 + 1) mod 7 = (toordinal d + 6 + 1) mod 7"
    by (simp only: mod_add_left_eq)
  also have "\<dots> = toordinal d mod 7" by simp
  finally show ?thesis by (simp add: strftime_w_def weekday_def)
qed

lemma build_weeks_loop_overflow:
  "valid_date ws \<Longrightarrow> MAXYEAR \<le> E \<Longrightarrow> fst (build_weeks_loop E ws prev wds c) \<noteq> None"
proof (induction E ws prev wds c rule: build_weeks_loop.induct)
  case (1 E ws prev wds c)
  have nE: "\<not> E < year ws" using "1.prems" by (simp add: valid_date_def)
  show ?case
  proof (cases "date_add ws 6")
    case (Inl e)
    then show ?thesis using nE by (subst build_weeks_loop.simps) simp
  next
    case (Inr we)
    note we = this
    show ?thesis
    proof (cases "if day ws = 1 \<and> month ws = 1 then Inr 1
          else if year ws < year we then Inr 1
          else case prev of None \<Rightarrow> Inl TypeError | Some n \<Rightarrow> Inr (n + 1)")
      case (Inl e)
      then show ?thesis using nE we by (subst build_weeks_loop.simps) simp
    next
      case (Inr wn)
      note wn = this
      show ?thesis
      proof (cases "collect (date_range ws we)")
        case (Inl e)
        then show ?thesis using nE we wn by (subst build_weeks_loop.simps) simp
      next
        case (Inr ds)
        note ds = this
        show ?thesis
        proof (cases "date_add ws 7")
          case (Inl e)
          then show ?thesis using nE we wn ds
            by (subst build_weeks_loop.simps) (simp add: Let_def)
        next
          case (Inr nxt)
          from date_add_toordinal[OF "1.prems"(1) Inr] have "valid_date nxt" by simp
          from "1.IH"[OF nE we wn ds refl refl refl Inr this "1.prems"(2)]
          show ?thesis using nE we wn ds Inr
            by (subst build_weeks_loop.simps) (simp add: Let_def)
        qed
      qed
    qed
  qed
qed

text \<open>The ordinal of the Sunday on or before January 1st of a year.\<close>

definition first_week_start :: "int \<Rightarrow> int" where
  "first_week_start y = (days_before_year y + 1) - (days_before_year y + 1) mod 7"

lemma build_weeks_start:
  assumes "dtdate (epoch_year b) 1 1 = Inr j" "date_add j (- strftime_w j) = Inr ws"
  shows "valid_date ws \<and> toordinal ws = first_week_start (epoch_year b)
     \<and> toordinal ws mod 7 = 0 \<and> prev_ok ws None"
proof -
  have j: "j = \<lparr>year = epoch_year b, month = 1, day = 1\<rparr>" "valid_date j"
    using assms(1) by (auto simp: dtdate_eq Let_def split: if_splits)
  have tj: "toordinal j = days_before_year (epoch_year b) + 1" by (simp add: j(1) toordinal_jan1)
  from date_add_toordinal[OF j(2) assms(2)]
  have ws: "valid_date ws" "toordinal ws = first_week_start (epoch_year b)"
    by (simp_all add: strftime_w_eq tj first_week_start_def)
  have m: "toordinal ws mod 7 = 0"
    by (simp add: ws(2) first_week_start_def minus_mod_eq_mult_div)
  have "0 \<le> (days_before_year (epoch_year b) + 1) mod 7" "(days_before_year (epoch_year b) + 1) mod 7 < 7"
    by simp_all
  then have "toordinal ws \<le> days_before_year (epoch_year b) + 1
      \<and> days_before_year (epoch_year b) + 1 \<le> toordinal ws + 6"
    by (simp add: ws(2) first_week_start_def)
  then have "prev_ok ws None" by (auto simp: prev_ok_def)
  with ws m show ?thesis by simp
qed

text \<open>What a completed \<open>build_weeks\<close> has produced.\<close>

lemma build_weeks_completed:
  assumes "build_weeks b c = (None, b', c')"
  shows "\<exists>new. b' = b\<lparr>week_dicts := week_dicts b @ new\<rparr> \<and> c' = fold write_single_week new c
     \<and> MINYEAR \<le> epoch_year b \<and> end_year b < MAXYEAR
     \<and> (\<forall>w\<in>set new. week_ok w \<and> first_week_start (epoch_year b) \<le> toordinal (wd_week_start w)
            \<and> year (wd_week_start w) \<le> end_year b)
     \<and> (\<forall>d. valid_date d \<and> first_week_start (epoch_year b) \<le> toordinal d \<and> year d \<le> end_year b
            \<longrightarrow> (\<exists>w\<in>set new. d \<in> set (wd_week_dates w)))"
proof -
  from assms obtain j where j: "dtdate (epoch_year b) 1 1 = Inr j"
    by (auto simp: build_weeks_def split: sum.splits)
  with assms obtain ws where ws: "date_add j (- strftime_w j) = Inr ws"
    by (auto simp: build_weeks_def Let_def split: sum.splits)
  from build_weeks_start[OF j ws] have s: "valid_date ws"
    "toordinal ws = first_week_start (epoch_year b)" "toordinal ws mod 7 = 0" "prev_ok ws None"
    by blast+
  obtain r wds c1 where l: "build_weeks_loop (end_year b) ws None (week_dicts b) c = (r, wds, c1)"
    by (cases "build_weeks_loop (end_year b) ws None (week_dicts b) c") auto
  with assms j ws have r: "r = None" "b' = b\<lparr>week_dicts := wds\<rparr>" "c' = c1"
    by (simp_all add: build_weeks_def Let_def)
  have E: "end_year b < MAXYEAR"
  proof (rule ccontr)
    assume "\<not> end_year b < MAXYEAR"
    then have "fst (build_weeks_loop (end_year b) ws None (week_dicts b) c) \<noteq> None"
      by (intro build_weeks_loop_overflow[OF s(1)]) simp
    with l r(1) show False by simp
  qed
  have "MINYEAR \<le> epoch_year b" using j by (auto simp: dtdate_eq Let_def valid_date_def split: if_splits)
  with build_weeks_loop_inv[OF s(1,3,4) E, of "week_dicts b" c] l r E show ?thesis
    by (auto simp: s(2))
qed

lemma first_week_start_ge_1:
  assumes "MINYEAR < y"
  shows "1 \<le> first_week_start y"
proof -
  have "days_before_year 2 \<le> days_before_year y"
    using assms by (intro days_before_year_le) (simp add: MINYEAR_def)
  then have "366 \<le> days_before_year y + 1" by (simp add: days_before_year_def)
  moreover have "(days_before_year y + 1) mod 7 < 7" by simp
  ultimately show ?thesis unfolding first_week_start_def by linarith
qed

text \<open>When \<open>build_weeks\<close> completes.\<close>

lemma build_weeks_completes:
  assumes "MINYEAR < epoch_year b" "epoch_year b \<le> MAXYEAR" "end_year b < MAXYEAR"
  shows "\<exists>b' c'. build_weeks b c = (None, b', c')"
proof -
  let ?j = "\<lparr>year = epoch_year b, month = 1, day = 1\<rparr>"
  have vj: "valid_date ?j" using assms by (intro valid_jan1) simp_all
  then have j: "dtdate (epoch_year b) 1 1 = Inr ?j" by (simp add: dtdate_eq)
  have "1 \<le> toordinal ?j + - strftime_w ?j"
    using first_week_start_ge_1[OF assms(1)]
    by (simp add: strftime_w_eq toordinal_jan1 first_week_start_def)
  moreover have "toordinal ?j + - strftime_w ?j \<le> days_before_year (MAXYEAR + 1)"
    using toordinal_le_max[OF vj] by (simp add: strftime_w_eq)
  ultimately obtain ws where ws: "date_add ?j (- strftime_w ?j) = Inr ws"
    using date_add_ok[OF vj] by blast
  from build_weeks_start[OF j ws] have s: "valid_date ws" "toordinal ws mod 7 = 0" "prev_ok ws None"
    by blast+
  from build_weeks_loop_inv[OF s assms(3), of "week_dicts b" c] j ws show ?thesis
    by (auto simp: build_weeks_def Let_def)
qed

lemma collect_Inr_map: "collect xs = Inr ys \<Longrightarrow> xs = map Inr ys"
proof (induction xs arbitrary: ys)
  case Nil
  then show ?case by simp
next
  case (Cons x xs)
  then show ?case by (cases x) (auto split: sum.splits)
qed

lemma week_ok_end:
  assumes "week_ok w"
  shows "valid_date (wd_week_end w) \<and> toordinal (wd_week_end w) = toordinal (wd_week_start w) + 6"
  using assms date_add_toordinal[of "wd_week_start w" 6 "wd_week_end w"] by (simp add: week_ok_def)

lemma week_ok_dates:
  assumes "week_ok w"
  shows "d \<in> set (wd_week_dates w) \<longleftrightarrow>
     valid_date d \<and> toordinal (wd_week_start w) \<le> toordinal d
       \<and> toordinal d \<le> toordinal (wd_week_start w) + 6"
proof -
  have v: "valid_date (wd_week_start w)" using assms by (simp add: week_ok_def)
  have e: "valid_date (wd_week_end w)" "toordinal (wd_week_end w) = toordinal (wd_week_start w) + 6"
    using week_ok_end[OF assms] by simp_all
  from date_range_collect[OF v e(1)] obtain ds where
    ds: "collect (date_range (wd_week_start w) (wd_week_end w)) = Inr ds"
      "set ds = {d. valid_date d \<and> toordinal (wd_week_start w) \<le> toordinal d
          \<and> toordinal d \<le> toordinal (wd_week_end w)}"
    by blast
  have "ds = wd_week_dates w" using ds(1) assms by (simp add: week_ok_def)
  with ds(2) e(2) show ?thesis by auto
qed

lemma week_ok_seven:
  assumes "week_ok w"
  shows "length (wd_week_dates w) = 7
     \<and> (\<forall>i<7. date_add (wd_week_start w) (int i) = Inr (wd_week_dates w ! i))
     \<and> day_of_week_int (wd_week_start w) = 1
     \<and> date_add (wd_week_start w) 6 = Inr (wd_week_end w)"
proof -
  let ?ws = "wd_week_start w" and ?we = "wd_week_end w" and ?ds = "wd_week_dates w"
  have c: "collect (date_range ?ws ?we) = Inr ?ds" using assms by (simp add: week_ok_def)
  have n: "nat (date_sub ?we ?ws + 1) = 7" using week_ok_end[OF assms] by (simp add: date_sub_def)
  from collect_Inr_map[OF c] have m: "date_range ?ws ?we = map Inr ?ds" .
  then have "length (date_range ?ws ?we) = length ?ds" by simp
  then have len: "length ?ds = 7" by (simp add: date_range_def n)
  have "date_add ?ws (int i) = Inr (?ds ! i)" if "i < 7" for i
  proof -
    have "date_add ?ws (int i) = date_range ?ws ?we ! i"
      using that by (simp add: date_range_def n)
    also have "\<dots> = map Inr ?ds ! i" by (simp only: m)
    also have "\<dots> = Inr (?ds ! i)" using that len by simp
    finally show ?thesis .
  qed
  with len assms show ?thesis by (simp add: week_ok_def day_of_week_int_def)
qed

lemma sunday_ordinal: "toordinal x mod 7 = 0 \<Longrightarrow> toordinal x = 7 * week_index x"
  by (auto simp: week_index_def elim!: dvdE dest!: mod_0_imp_dvd)

lemma week_ok_start:
  assumes "week_ok w"
  shows "valid_date (wd_week_start w)" "toordinal (wd_week_start w) = 7 * week_index (wd_week_start w)"
  using assms sunday_ordinal[of "wd_week_start w"] by (simp_all add: week_ok_def)

lemma week_ok_same_start:
  assumes "week_ok w" "week_ok w'" "wd_week_start w = wd_week_start w'"
  shows "w = w'"
  using assms by (intro week_dict.equality) (simp_all add: week_ok_def)

lemma week_ok_start_of:
  assumes "week_ok w" "d \<in> set (wd_week_dates w)"
  shows "toordinal (wd_week_start w) = 7 * week_index d \<and> week_index (wd_week_start w) = week_index d"
proof -
  obtain q where q: "toordinal (wd_week_start w) = 7 * q"
    using week_ok_start(2)[OF assms(1)] by blast
  have "toordinal d = 7 * q + (toordinal d - 7 * q)" by simp
  then have "toordinal d div 7 = q"
    by (rule div7_eq) (use week_ok_dates[OF assms(1), of d] assms(2) q in simp_all)
  then show ?thesis using q by (simp add: week_index_def)
qed

lemma week_ok_unique:
  assumes "week_ok w" "week_ok w'" "d \<in> set (wd_week_dates w)" "d \<in> set (wd_week_dates w')"
  shows "w = w'"
proof -
  have "toordinal (wd_week_start w) = toordinal (wd_week_start w')"
    using week_ok_start_of[OF assms(1,3)] week_ok_start_of[OF assms(2,4)] by simp
  then have "wd_week_start w = wd_week_start w'"
    by (rule toordinal_inj[OF week_ok_start(1)[OF assms(1)] week_ok_start(1)[OF assms(2)]])
  with assms(1,2) show ?thesis by (rule week_ok_same_start)
qed

lemma week_ok_same_key:
  assumes "week_ok w" "week_ok w'" "wd_year w = wd_year w'" "wd_week_number w = wd_week_number w'"
  shows "w = w'"
proof -
  have "week_index (wd_week_start w) = wd_week_number w - 1 + jan1_week (wd_year w)"
    using assms(1) by (simp add: week_ok_def)
  moreover have "week_index (wd_week_start w') = wd_week_number w' - 1 + jan1_week (wd_year w')"
    using assms(2) by (simp add: week_ok_def)
  ultimately have "week_index (wd_week_start w) = week_index (wd_week_start w')"
    using assms(3,4) by simp
  then have "toordinal (wd_week_start w) = toordinal (wd_week_start w')"
    using week_ok_start(2)[OF assms(1)] week_ok_start(2)[OF assms(2)] by simp
  then have "wd_week_start w = wd_week_start w'"
    by (rule toordinal_inj[OF week_ok_start(1)[OF assms(1)] week_ok_start(1)[OF assms(2)]])
  with assms(1,2) show ?thesis by (rule week_ok_same_start)
qed

text \<open>The week tuple of a date is the key of the week that holds it.\<close>

lemma week_ok_tuple:
  assumes w: "week_ok w" and d: "d \<in> set (wd_week_dates w)" and y: "year d < MAXYEAR"
  shows "date_to_week_tuple d = Inr (wd_year w, wd_week_number w)"
proof -
  let ?ws = "wd_week_start w" and ?we = "wd_week_end w"
  define Y where "Y = year ?we"
  have vd: "valid_date d" and lo: "toordinal ?ws \<le> toordinal d" and hi: "toordinal d \<le> toordinal ?ws + 6"
    using week_ok_dates[OF w, of d] d by simp_all
  have we: "valid_date ?we" "toordinal ?we = toordinal ?ws + 6" using week_ok_end[OF w] by simp_all
  have wi: "toordinal ?ws = 7 * week_index d" "week_index ?ws = week_index d"
    using week_ok_start_of[OF w d] by simp_all
  have key: "wd_year w = Y" "wd_week_number w = week_index d - jan1_week Y + 1"
    using w wi(2) by (simp_all add: week_ok_def Y_def)
  have yle: "year d \<le> Y" unfolding Y_def using toordinal_year_mono[OF vd we(1)] hi we(2) by simp
  have eY: "days_before_year Y < toordinal ?ws + 6" "toordinal ?ws + 6 \<le> days_before_year (Y + 1)"
    using toordinal_lower[OF we(1)] toordinal_upper[OF we(1)] we(2) by (simp_all add: Y_def)
  show ?thesis
  proof (cases "year d = Y")
    case True
    have "week_index d < jan1_week (year d + 1)"
    proof -
      obtain q r where qr: "days_before_year (Y + 1) + 1 = 7 * q + r" "0 \<le> r" "r < 7"
        "(days_before_year (Y + 1) + 1) div 7 = q" by (rule divmod7)
      have "week_index d < q" using eY(2) wi(1) qr(1-3) by arith
      then show ?thesis using qr(4) True by (simp add: jan1_week_def)
    qed
    then show ?thesis
      using date_to_week_tuple_closed[OF vd y] True key by simp
  next
    case False
    with yle have lt: "year d < Y" by simp
    have "toordinal d \<le> days_before_year (year d + 1)" by (rule toordinal_upper[OF vd])
    also have "\<dots> \<le> days_before_year Y" using lt by (intro days_before_year_le) simp
    finally have dY: "toordinal d \<le> days_before_year Y" .
    have yd: "year d + 1 = Y"
    proof (rule ccontr)
      assume "year d + 1 \<noteq> Y"
      then have "year d + 2 \<le> Y" using lt by simp
      then have "days_before_year (year d + 1 + 1) \<le> days_before_year Y"
        by (intro days_before_year_le) simp
      then have "days_before_year (year d + 1) + 365 \<le> days_before_year Y"
        using days_before_year_step_le[of "year d + 1"] by simp
      with toordinal_upper[OF vd] lo eY(1) hi show False
        using toordinal_lower[OF vd] days_before_year_step_le[of "year d"] by simp
    qed
    have "days_before_year Y + 1 = 7 * week_index d + (days_before_year Y + 1 - 7 * week_index d)"
      by simp
    then have "(days_before_year Y + 1) div 7 = week_index d"
      by (rule div7_eq) (use dY lo eY(1) wi(1) in simp_all)
    then have "jan1_week Y = week_index d" by (simp add: jan1_week_def)
    then show ?thesis
      using date_to_week_tuple_closed[OF vd y] yd key by simp
  qed
qed

lemma weeks_per_year:
  "jan1_week (y + 1) - jan1_week y = 52 \<or> jan1_week (y + 1) - jan1_week y = 53"
proof -
  obtain q r where qr: "days_before_year y + 1 = 7 * q + r" "0 \<le> r" "r < 7"
    "(days_before_year y + 1) div 7 = q" by (rule divmod7)
  obtain q' r' where qr': "days_before_year (y + 1) + 1 = 7 * q' + r'" "0 \<le> r'" "r' < 7"
    "(days_before_year (y + 1) + 1) div 7 = q'" by (rule divmod7)
  have "days_before_year (y + 1) = days_before_year y + 365
      \<or> days_before_year (y + 1) = days_before_year y + 366"
    by (simp add: days_before_year_Suc)
  then have "q' - q = 52 \<or> q' - q = 53" using qr(1-3) qr'(1-3) by arith
  then show ?thesis using qr(4) qr'(4) by (simp add: jan1_week_def)
qed

lemma date_of_ordinal_in_year:
  assumes "MINYEAR \<le> y" "y \<le> MAXYEAR" "days_before_year y < n" "n \<le> days_before_year (y + 1)"
  shows "\<exists>d. valid_date d \<and> toordinal d = n \<and> year d = y"
proof -
  let ?a = "\<lparr>year = y, month = 1, day = 1\<rparr>" and ?b = "\<lparr>year = y, month = 12, day = 31\<rparr>"
  have "valid_date ?a" "valid_date ?b" using assms(1,2) by (simp_all add: valid_jan1 valid_dec31)
  from date_add_between[OF this, of "n - (days_before_year y + 1)"] assms(3,4)
  obtain d where d: "valid_date d" "toordinal d = n"
    by (auto simp: toordinal_jan1 toordinal_dec31)
  with year_of_ordinal[OF d(1), of y] assms(3,4) show ?thesis by auto
qed

lemma year_week_numbers:
  assumes ok: "\<forall>w\<in>set new. week_ok w"
    and cov: "\<forall>d. valid_date d \<and> S \<le> toordinal d \<and> year d \<le> E
            \<longrightarrow> (\<exists>w\<in>set new. d \<in> set (wd_week_dates w))"
    and y: "MINYEAR \<le> y" "y \<le> E" "E < MAXYEAR" "S \<le> days_before_year y + 1"
  shows "wd_week_number ` {w \<in> set new. wd_year w = y} = {1 .. jan1_week (y + 1) - jan1_week y}"
proof -
  obtain a r where ar: "days_before_year y + 1 = 7 * a + r" "0 \<le> r" "r < 7"
    "(days_before_year y + 1) div 7 = a" by (rule divmod7)
  obtain b r' where br: "days_before_year (y + 1) + 1 = 7 * b + r'" "0 \<le> r'" "r' < 7"
    "(days_before_year (y + 1) + 1) div 7 = b" by (rule divmod7)
  have jw: "jan1_week y = a" "jan1_week (y + 1) = b" using ar(4) br(4) by (simp_all add: jan1_week_def)
  show ?thesis
  proof (intro set_eqI iffI)
    fix k assume "k \<in> wd_week_number ` {w \<in> set new. wd_year w = y}"
    then obtain w where w: "w \<in> set new" "wd_year w = y" "k = wd_week_number w" by auto
    have wok: "week_ok w" using ok w(1) by simp
    define q where "q = week_index (wd_week_start w)"
    have e: "valid_date (wd_week_end w)" "toordinal (wd_week_end w) = 7 * q + 6"
      using week_ok_end[OF wok] week_ok_start(2)[OF wok] by (simp_all add: q_def)
    have ye: "year (wd_week_end w) = y" using wok w(2) by (simp add: week_ok_def)
    have "days_before_year y < 7 * q + 6" "7 * q + 6 \<le> days_before_year (y + 1)"
      using toordinal_lower[OF e(1)] toordinal_upper[OF e(1)] e(2) ye by simp_all
    then have "a \<le> q" "q < b" using ar(1-3) br(1-3) by arith+
    moreover have "k = q - a + 1" using wok w(3) ye jw by (simp add: week_ok_def q_def)
    ultimately show "k \<in> {1 .. jan1_week (y + 1) - jan1_week y}" by (simp add: jw)
  next
    fix k assume "k \<in> {1 .. jan1_week (y + 1) - jan1_week y}"
    then have k: "1 \<le> k" "k \<le> b - a" by (simp_all add: jw)
    define q where "q = a + k - 1"
    have o: "days_before_year y < 7 * q + 6" "7 * q + 6 \<le> days_before_year (y + 1)"
      using k ar(1-3) br(1-3) by (simp_all add: q_def)
    from date_of_ordinal_in_year[OF y(1) _ o] y(2,3)
    obtain e where e: "valid_date e" "toordinal e = 7 * q + 6" "year e = y" by auto
    have "S \<le> toordinal e" using y(4) o(1) e(2) by simp
    with cov e y(2) obtain w where w: "w \<in> set new" "e \<in> set (wd_week_dates w)" by blast
    have wok: "week_ok w" using ok w(1) by simp
    have "toordinal e = 7 * q + 6" by (rule e(2))
    then have qe: "week_index e = q" unfolding week_index_def by (rule div7_eq) simp_all
    have s: "toordinal (wd_week_start w) = 7 * q" "week_index (wd_week_start w) = q"
      using week_ok_start_of[OF wok w(2)] qe by simp_all
    have "wd_week_end w = e"
      using week_ok_end[OF wok] s(1) e(1,2) by (intro toordinal_inj) simp_all
    then have "wd_year w = y" "wd_week_number w = k"
      using wok e(3) s(2) jw by (simp_all add: week_ok_def q_def)
    with w(1) show "k \<in> wd_week_number ` {w \<in> set new. wd_year w = y}" by force
  qed
qed

text \<open>The records one call of \<open>build_weeks\<close> appends to \<open>week_dicts\<close>.\<close>

definition weeks_built :: "Builder \<Rightarrow> Builder \<Rightarrow> week_dict list" where
  "weeks_built b b' = drop (length (week_dicts b)) (week_dicts b')"

lemma first_week_start_le:
  assumes "e \<le> y"
  shows "first_week_start e \<le> days_before_year y + 1"
proof -
  have "0 \<le> (days_before_year e + 1) mod 7" by simp
  then have "first_week_start e \<le> days_before_year e + 1" unfolding first_week_start_def by linarith
  with days_before_year_le[OF assms] show ?thesis by simp
qed


section \<open>Example configurations\<close>

definition db_2021 :: frappe_db where
  "db_2021 = \<lparr>db_debug_mode = False, db_start_year = Some 2021, db_end_year = Some 2021\<rparr>"

definition db_2021_debug :: frappe_db where
  "db_2021_debug = \<lparr>db_debug_mode = True, db_start_year = Some 2021, db_end_year = Some 2021\<rparr>"

definition week_2021_02 :: week_dict where
  "week_2021_02 = \<lparr>wd_year = 2021, wd_week_number = 2,
     wd_week_start = \<lparr>year = 2021, month = 1, day = 3\<rparr>,
     wd_week_end = \<lparr>year = 2021, month = 1, day = 9\<rparr>,
     wd_week_dates = [\<lparr>year = 2021, month = 1, day = 3\<rparr>, \<lparr>year = 2021, month = 1, day = 4\<rparr>,
       \<lparr>year = 2021, month = 1, day = 5\<rparr>, \<lparr>year = 2021, month = 1, day = 6\<rparr>,
       \<lparr>year = 2021, month = 1, day = 7\<rparr>, \<lparr>year = 2021, month = 1, day = 8\<rparr>,
       \<lparr>year = 2021, month = 1, day = 9\<rparr>]\<rparr>"

definition small_cache :: cache where
  "small_cache =
     \<lparr>day_store = [\<lparr>year = 2021, month = 1, day = 3\<rparr> \<mapsto>
          day_dict_of \<lparr>year = 2021, month = 1, day = 3\<rparr> (2021, 2)],
      week_store = [(2021, 2) \<mapsto> week_2021_02], year_store = Map.empty, years_store = None\<rparr>"

definition empty_cache :: cache where
  "empty_cache = \<lparr>day_store = Map.empty, week_store = Map.empty, year_store = Map.empty,
     years_store = None\<rparr>"

definition builder_2021 :: Builder where
  "builder_2021 = \<lparr>debug_mode = False, epoch_year = 2021, end_year = 2021, years = [2021],
     weekday_names = WEEKDAYS_SUN0, week_dicts = []\<rparr>"

definition builder_9998 :: Builder where
  "builder_9998 = \<lparr>debug_mode = False, epoch_year = 9998, end_year = 9998, years = [9998],
     weekday_names = WEEKDAYS_SUN0, week_dicts = []\<rparr>"

definition last_week_9998 :: week_dict where
  "last_week_9998 = \<lparr>wd_year = 9999, wd_week_number = 1,
     wd_week_start = \<lparr>year = 9998, month = 12, day = 27\<rparr>,
     wd_week_end = \<lparr>year = 9999, month = 1, day = 2\<rparr>,
     wd_week_dates = [\<lparr>year = 9998, month = 12, day = 27\<rparr>, \<lparr>year = 9998, month = 12, day = 28\<rparr>,
       \<lparr>year = 9998, month = 12, day = 29\<rparr>, \<lparr>year = 9998, month = 12, day = 30\<rparr>,
       \<lparr>year = 9998, month = 12, day = 31\<rparr>, \<lparr>year = 9999, month = 1, day = 1\<rparr>,
       \<lparr>year = 9999, month = 1, day = 2\<rparr>]\<rparr>"


section \<open>The writes of a build\<close>

text \<open>
  A write to the cache, as a value; \<open>overlay c m\<close> is the cache \<open>c\<close> with every record
  of \<open>m\<close> put over it.
\<close>

datatype write_op = WriteWeek week_dict | WriteYear year_dict | WriteDay day_dict
  | WriteYears "int list"

fun apply_write :: "write_op \<Rightarrow> cache \<Rightarrow> cache" where
  "apply_write (WriteWeek w) c = write_single_week w c"
| "apply_write (WriteYear yd) c = write_single_year yd c"
| "apply_write (WriteDay dd) c = write_single_day dd c"
| "apply_write (WriteYears ys) c = write_years ys c"

definition apply_writes :: "write_op list \<Rightarrow> cache \<Rightarrow> cache" where
  "apply_writes ops c = fold apply_write ops c"

definition overlay :: "cache \<Rightarrow> cache \<Rightarrow> cache" where
  "overlay c m =
     \<lparr>day_store = day_store c ++ day_store m, week_store = week_store c ++ week_store m,
      year_store = year_store c ++ year_store m,
      years_store = (case years_store m of None \<Rightarrow> years_store c | Some ys \<Rightarrow> Some ys)\<rparr>"

lemma apply_writes_Nil: "apply_writes [] c = c"
  by (simp add: apply_writes_def)

lemma apply_writes_Cons: "apply_writes (x # ops) c = apply_writes ops (apply_write x c)"
  by (simp add: apply_writes_def)

lemma apply_writes_append: "apply_writes (xs @ ys) c = apply_writes ys (apply_writes xs c)"
  by (simp add: apply_writes_def)

lemma apply_write_overlay: "apply_write x (overlay c m) = overlay c (apply_write x m)"
  by (cases x)
    (simp_all add: overlay_def write_single_week_def write_single_year_def write_single_day_def
      write_years_def)

lemma apply_writes_overlay: "apply_writes ops (overlay c m) = overlay c (apply_writes ops m)"
  by (induction ops arbitrary: m) (simp_all add: apply_writes_Nil apply_writes_Cons apply_write_overlay)

lemma overlay_empty: "overlay c empty_cache = c"
  by (simp add: overlay_def empty_cache_def)

lemma map_add_twice: "(a ++ b) ++ b = a ++ b"
  by (rule ext) (simp add: map_add_def split: option.splits)

lemma overlay_idem: "overlay (overlay c m) m = overlay c m"
  by (simp add: overlay_def map_add_twice split: option.splits)

lemma apply_writes_as_overlay: "apply_writes ops c = overlay c (apply_writes ops empty_cache)"
  using apply_writes_overlay[of ops c empty_cache] by (simp add: overlay_empty)

lemma apply_writes_idem: "apply_writes ops (apply_writes ops c) = apply_writes ops c"
proof -
  let ?m = "apply_writes ops empty_cache"
  have "apply_writes ops (apply_writes ops c) = overlay (overlay c ?m) ?m"
    by (metis apply_writes_as_overlay)
  then show ?thesis by (metis overlay_idem apply_writes_as_overlay)
qed

lemma fold_write_single_week: "fold write_single_week ws c = apply_writes (map WriteWeek ws) c"
  by (induction ws arbitrary: c) (simp_all add: apply_writes_Nil apply_writes_Cons)

text \<open>No method of the Builder reads the cache: each is a fixed list of writes.\<close>

lemma build_weeks_loop_writes_aux:
  "\<exists>r wds' ops. build_weeks_loop E ws prev wds c = (r, wds', apply_writes ops c)
     \<and> (\<forall>c'. build_weeks_loop E ws prev wds c' = (r, wds', apply_writes ops c'))"
proof (induction E ws prev wds c rule: build_weeks_loop.induct)
  case (1 E ws prev wds c)
  show ?case
  proof (cases "E < year ws")
    case True
    then have "\<forall>c'. build_weeks_loop E ws prev wds c' = (None, wds, apply_writes [] c')"
      by (subst build_weeks_loop.simps) (simp add: apply_writes_Nil)
    then show ?thesis by blast
  next
    case nE: False
    show ?thesis
    proof (cases "date_add ws 6")
      case (Inl e)
      then have "\<forall>c'. build_weeks_loop E ws prev wds c' = (Some e, wds, apply_writes [] c')"
        using nE by (subst build_weeks_loop.simps) (simp add: apply_writes_Nil)
      then show ?thesis by blast
    next
      case we: (Inr we)
      show ?thesis
      proof (cases "if day ws = 1 \<and> month ws = 1 then Inr 1
          else if year ws < year we then Inr 1
          else case prev of None \<Rightarrow> Inl TypeError | Some n \<Rightarrow> Inr (n + 1)")
        case (Inl e)
        then have "\<forall>c'. build_weeks_loop E ws prev wds c' = (Some e, wds, apply_writes [] c')"
          using nE we by (subst build_weeks_loop.simps) (simp add: apply_writes_Nil)
        then show ?thesis by blast
      next
        case wn: (Inr wn)
        show ?thesis
        proof (cases "collect (date_range ws we)")
          case (Inl e)
          then have "\<forall>c'. build_weeks_loop E ws prev wds c' = (Some e, wds, apply_writes [] c')"
            using nE we wn by (subst build_weeks_loop.simps) (simp add: apply_writes_Nil)
          then show ?thesis by blast
        next
          case ds: (Inr ds)
          define w where "w = \<lparr>wd_year = year we, wd_week_number = wn, wd_week_start = ws,
            wd_week_end = we, wd_week_dates = ds\<rparr>"
          show ?thesis
          proof (cases "date_add ws 7")
            case (Inl e)
            then have "\<forall>c'. build_weeks_loop E ws prev wds c'
                = (Some e, wds @ [w], apply_writes [WriteWeek w] c')"
              using nE we wn ds
              by (subst build_weeks_loop.simps)
                (simp add: Let_def w_def apply_writes_Nil apply_writes_Cons)
            then show ?thesis by blast
          next
            case nxt: (Inr nxt)
            from "1.IH"[OF nE we wn ds w_def refl refl nxt]
            obtain r wds' ops where
              ih: "\<forall>c'. build_weeks_loop E nxt (Some wn) (wds @ [w]) c' = (r, wds', apply_writes ops c')"
              by blast
            have "\<forall>c'. build_weeks_loop E ws prev wds c'
                = (r, wds', apply_writes (WriteWeek w # ops) c')"
              using nE we wn ds nxt ih
              by (subst build_weeks_loop.simps) (simp add: Let_def w_def apply_writes_Cons)
            then show ?thesis by blast
          qed
        qed
      qed
    qed
  qed
qed

lemma build_weeks_loop_writes:
  "\<exists>r wds' ops. \<forall>c'. build_weeks_loop E ws prev wds c' = (r, wds', apply_writes ops c')"
  using build_weeks_loop_writes_aux[of E ws prev wds empty_cache] by blast

lemma build_weeks_writes:
  "\<exists>r b' ops. \<forall>c. build_weeks b c = (r, b', apply_writes ops c)"
proof (cases "dtdate (epoch_year b) 1 1")
  case (Inl e)
  then have "\<forall>c. build_weeks b c = (Some e, b, apply_writes [] c)"
    by (simp add: build_weeks_def apply_writes_Nil)
  then show ?thesis by blast
next
  case j: (Inr j)
  show ?thesis
  proof (cases "date_add j (- strftime_w j)")
    case (Inl e)
    then have "\<forall>c. build_weeks b c = (Some e, b, apply_writes [] c)"
      using j by (simp add: build_weeks_def apply_writes_Nil)
    then show ?thesis by blast
  next
    case (Inr ws)
    from build_weeks_loop_writes[of "end_year b" ws None "week_dicts b"]
    obtain r wds' ops where
      "\<forall>c'. build_weeks_loop (end_year b) ws None (week_dicts b) c' = (r, wds', apply_writes ops c')"
      by blast
    then have "\<forall>c. build_weeks b c = (r, b\<lparr>week_dicts := wds'\<rparr>, apply_writes ops c)"
      using j Inr by (simp add: build_weeks_def)
    then show ?thesis by blast
  qed
qed

lemma build_year_writes:
  "\<exists>r ops. \<forall>c. build_year b y c = (r, apply_writes ops c)"
proof -
  have "\<exists>r ops. build_year b y c = (r, apply_writes ops c) \<and> (\<forall>c'. build_year b y c' = (r, apply_writes ops c'))"
    for c
    unfolding build_year_def Let_def
    by (auto split: sum.splits intro: exI[of _ "[]"] exI[of _ "[WriteYear _]"]
        simp: apply_writes_Nil apply_writes_Cons)
  then show ?thesis by blast
qed

lemma build_years_loop_writes:
  "\<exists>r ops. \<forall>c. build_years_loop b ys c = (r, apply_writes ops c)"
proof (induction ys)
  case Nil
  have "\<forall>c. build_years_loop b [] c = (None, apply_writes [] c)" by (simp add: apply_writes_Nil)
  then show ?case by blast
next
  case (Cons y ys)
  from build_year_writes[of b y] obtain r1 ops1 where
    y: "\<forall>c. build_year b y c = (r1, apply_writes ops1 c)" by blast
  from Cons obtain r2 ops2 where
    ys: "\<forall>c. build_years_loop b ys c = (r2, apply_writes ops2 c)" by blast
  show ?case
  proof (cases r1)
    case None
    then have "\<forall>c. build_years_loop b (y # ys) c = (r2, apply_writes (ops1 @ ops2) c)"
      using y ys by (simp add: apply_writes_append)
    then show ?thesis by blast
  next
    case (Some e)
    then have "\<forall>c. build_years_loop b (y # ys) c = (Some e, apply_writes ops1 c)"
      using y by simp
    then show ?thesis by blast
  qed
qed

lemma build_years_writes:
  "\<exists>r ops. \<forall>c. build_years b c = (r, apply_writes ops c)"
proof -
  from build_years_loop_writes[of b "years b"] obtain r ops where
    "\<forall>c. build_years_loop b (years b) c = (r, apply_writes ops c)" by blast
  then have "\<forall>c. build_years b c = (r, apply_writes (WriteYears (years b) # ops) c)"
    by (simp add: build_years_def apply_writes_Cons)
  then show ?thesis by blast
qed

lemma build_days_loop_writes:
  "\<exists>r ops. \<forall>c. build_days_loop xs c = (r, apply_writes ops c)"
proof (induction xs)
  case Nil
  have "\<forall>c. build_days_loop [] c = (None, apply_writes [] c)" by (simp add: apply_writes_Nil)
  then show ?case by blast
next
  case (Cons x xs)
  from Cons obtain r ops where xs: "\<forall>c. build_days_loop xs c = (r, apply_writes ops c)" by blast
  show ?case
  proof (cases x)
    case (Inl e)
    then have "\<forall>c. build_days_loop (x # xs) c = (Some e, apply_writes [] c)"
      by (simp add: apply_writes_Nil)
    then show ?thesis by blast
  next
    case (Inr d)
    show ?thesis
    proof (cases "date_to_week_tuple d")
      case (Inl e)
      then have "\<forall>c. build_days_loop (x # xs) c = (Some e, apply_writes [] c)"
        using Inr by (simp add: apply_writes_Nil)
      then show ?thesis by blast
    next
      case t: (Inr t)
      then have "\<forall>c. build_days_loop (x # xs) c
          = (r, apply_writes (WriteDay (day_dict_of d t) # ops) c)"
        using Inr xs by (simp add: apply_writes_Cons)
      then show ?thesis by blast
    qed
  qed
qed

lemma build_days_writes:
  "\<exists>r ops. \<forall>c. build_days b c = (r, apply_writes ops c)"
proof (cases "dtdate (epoch_year b) 1 1")
  case (Inl e)
  then have "\<forall>c. build_days b c = (Some e, apply_writes [] c)"
    by (simp add: build_days_def apply_writes_Nil)
  then show ?thesis by blast
next
  case s: (Inr s)
  show ?thesis
  proof (cases "dtdate (end_year b) 12 31")
    case (Inl e)
    then have "\<forall>c. build_days b c = (Some e, apply_writes [] c)"
      using s by (simp add: build_days_def apply_writes_Nil)
    then show ?thesis by blast
  next
    case (Inr t)
    from build_days_loop_writes[of "date_range s t"] obtain r ops where
      "\<forall>c. build_days_loop (date_range s t) c = (r, apply_writes ops c)" by blast
    then have "\<forall>c. build_days b c = (r, apply_writes ops c)"
      using s Inr by (simp add: build_days_def)
    then show ?thesis by blast
  qed
qed

lemma build_all_writes:
  "\<exists>r ops. \<forall>c. build_all db e n s c = (r, apply_writes ops c)"
proof (cases "Builder_init db e n s")
  case (Inl err)
  then have "\<forall>c. build_all db e n s c = (Some err, apply_writes [] c)"
    by (simp add: build_all_def apply_writes_Nil)
  then show ?thesis by blast
next
  case b: (Inr b)
  from build_weeks_writes[of b] obtain r1 b1 ops1 where
    w: "\<forall>c. build_weeks b c = (r1, b1, apply_writes ops1 c)" by blast
  show ?thesis
  proof (cases r1)
    case (Some err)
    then have "\<forall>c. build_all db e n s c = (Some err, apply_writes ops1 c)"
      using b w by (simp add: build_all_def)
    then show ?thesis by blast
  next
    case r1: None
    from build_years_writes[of b1] obtain r2 ops2 where
      y: "\<forall>c. build_years b1 c = (r2, apply_writes ops2 c)" by blast
    show ?thesis
    proof (cases r2)
      case (Some err)
      then have "\<forall>c. build_all db e n s c = (Some err, apply_writes (ops1 @ ops2) c)"
        using b w r1 y by (simp add: build_all_def apply_writes_append)
      then show ?thesis by blast
    next
      case r2: None
      from build_days_writes[of b1] obtain r3 ops3 where
        d: "\<forall>c. build_days b1 c = (r3, apply_writes ops3 c)" by blast
      have "\<forall>c. build_all db e n s c = (r3, apply_writes (ops1 @ ops2 @ ops3) c)"
        using b w r1 y r2 d by (simp add: build_all_def apply_writes_append)
      then show ?thesis by blast
    qed
  qed
qed


section \<open>The cache after a completed build\<close>

lemma fold_weeks_other_stores:
  "day_store (fold write_single_week ws c) = day_store c
   \<and> year_store (fold write_single_week ws c) = year_store c
   \<and> years_store (fold write_single_week ws c) = years_store c"
  by (induction ws arbitrary: c) (simp_all add: write_single_week_def)

lemma week_store_fold_absent:
  "\<forall>w\<in>set ws. (wd_year w, wd_week_number w) \<noteq> k \<Longrightarrow>
     week_store (fold write_single_week ws c) k = week_store c k"
  by (induction ws arbitrary: c) (auto simp: write_single_week_def)

lemma week_store_fold_present:
  assumes "\<forall>w\<in>set ws. \<forall>w'\<in>set ws.
      wd_year w = wd_year w' \<and> wd_week_number w = wd_week_number w' \<longrightarrow> w = w'"
    and "w \<in> set ws"
  shows "week_store (fold write_single_week ws c) (wd_year w, wd_week_number w) = Some w"
  using assms
proof (induction ws arbitrary: c)
  case Nil
  then show ?case by simp
next
  case (Cons x xs)
  show ?case
  proof (cases "w \<in> set xs")
    case True
    with Cons.IH[of "write_single_week x c"] Cons.prems(1) show ?thesis by simp
  next
    case False
    with Cons.prems(2) have wx: "w = x" by simp
    have "\<forall>w'\<in>set xs. (wd_year w', wd_week_number w') \<noteq> (wd_year x, wd_week_number x)"
      using Cons.prems(1) False wx by auto
    from week_store_fold_absent[OF this, of "write_single_week x c"]
    have "week_store (fold write_single_week xs (write_single_week x c)) (wd_year x, wd_week_number x)
        = week_store (write_single_week x c) (wd_year x, wd_week_number x)" .
    also have "\<dots> = Some x" by (simp add: write_single_week_def)
    finally show ?thesis using wx by simp
  qed
qed

lemma build_year_keeps:
  "build_year b y c = (r, c') \<Longrightarrow> week_store c' = week_store c \<and> day_store c' = day_store c"
  unfolding build_year_def Let_def
  by (auto split: sum.splits simp: write_single_year_def)

lemma build_years_loop_keeps:
  "build_years_loop b ys c = (r, c') \<Longrightarrow> week_store c' = week_store c \<and> day_store c' = day_store c"
proof (induction ys arbitrary: c)
  case Nil
  then show ?case by simp
next
  case (Cons y ys)
  obtain r1 c1 where y: "build_year b y c = (r1, c1)" by (cases "build_year b y c") auto
  show ?case
  proof (cases r1)
    case None
    with Cons.prems y have "build_years_loop b ys c1 = (r, c')" by simp
    from Cons.IH[OF this] build_year_keeps[OF y] show ?thesis by simp
  next
    case (Some e)
    with Cons.prems y build_year_keeps[OF y] show ?thesis by simp
  qed
qed

lemma build_years_keeps:
  "build_years b c = (r, c') \<Longrightarrow> week_store c' = week_store c \<and> day_store c' = day_store c"
  using build_years_loop_keeps[of b "years b" "write_years (years b) c" r c']
  by (simp add: build_years_def write_years_def)

lemma build_days_loop_week_store:
  "build_days_loop xs c = (r, c') \<Longrightarrow> week_store c' = week_store c"
proof (induction xs arbitrary: c)
  case Nil
  then show ?case by simp
next
  case (Cons x xs)
  show ?case
  proof (cases x)
    case (Inl e)
    with Cons.prems show ?thesis by simp
  next
    case (Inr d)
    show ?thesis
    proof (cases "date_to_week_tuple d")
      case (Inl e)
      with Cons.prems Inr show ?thesis by simp
    next
      case t: (Inr t)
      with Cons.prems Inr
      have "build_days_loop xs (write_single_day (day_dict_of d t) c) = (r, c')" by simp
      from Cons.IH[OF this] show ?thesis by (simp add: write_single_day_def)
    qed
  qed
qed

lemma build_days_loop_day_store:
  "build_days_loop xs c = (None, c') \<Longrightarrow>
     (Inr d \<in> set xs \<longrightarrow>
        (\<exists>t. date_to_week_tuple d = Inr t \<and> day_store c' d = Some (day_dict_of d t)))
     \<and> (Inr d \<notin> set xs \<longrightarrow> day_store c' d = day_store c d)"
proof (induction xs arbitrary: c)
  case Nil
  then show ?case by simp
next
  case (Cons x xs)
  show ?case
  proof (cases x)
    case (Inl e)
    with Cons.prems show ?thesis by simp
  next
    case x: (Inr x')
    show ?thesis
    proof (cases "date_to_week_tuple x'")
      case (Inl e)
      with Cons.prems x show ?thesis by simp
    next
      case t: (Inr t)
      let ?c1 = "write_single_day (day_dict_of x' t) c"
      from Cons.prems x t have "build_days_loop xs ?c1 = (None, c')" by simp
      note ih = Cons.IH[OF this]
      have c1: "day_store ?c1 d = (if d = x' then Some (day_dict_of x' t) else day_store c d)"
        by (simp add: write_single_day_def day_dict_of_def)
      show ?thesis
      proof (cases "Inr d \<in> set xs")
        case True
        with ih show ?thesis by simp
      next
        case False
        with ih have "day_store c' d = day_store ?c1 d" by simp
        with c1 t x False show ?thesis by auto
      qed
    qed
  qed
qed

lemma date_range_set:
  assumes "valid_date a" "valid_date b"
  shows "Inr d \<in> set (date_range a b) \<longleftrightarrow>
     valid_date d \<and> toordinal a \<le> toordinal d \<and> toordinal d \<le> toordinal b"
proof -
  from date_range_collect[OF assms] obtain ds where
    ds: "collect (date_range a b) = Inr ds"
      "set ds = {d. valid_date d \<and> toordinal a \<le> toordinal d \<and> toordinal d \<le> toordinal b}"
    by blast
  from collect_Inr_map[OF ds(1)] have "Inr d \<in> set (date_range a b) \<longleftrightarrow> d \<in> set ds" by auto
  with ds(2) show ?thesis by simp
qed

lemma build_all_completed:
  assumes "build_all db e n s c = (None, c')"
  shows "\<exists>b b1 c1 c2. Builder_init db e n s = Inr b \<and> build_weeks b c = (None, b1, c1)
     \<and> build_years b1 c1 = (None, c2) \<and> build_days b1 c2 = (None, c')"
proof -
  from assms obtain b where b: "Builder_init db e n s = Inr b"
    by (cases "Builder_init db e n s") (auto simp: build_all_def)
  obtain r1 b1 c1 where w: "build_weeks b c = (r1, b1, c1)" by (cases "build_weeks b c") auto
  obtain r2 c2 where y: "build_years b1 c1 = (r2, c2)" by (cases "build_years b1 c1") auto
  from assms b w have r1: "r1 = None" by (cases r1) (auto simp: build_all_def)
  from assms b w r1 y have r2: "r2 = None" by (cases r2) (auto simp: build_all_def)
  from assms b w r1 y r2 have "build_days b1 c2 = (None, c')" by (simp add: build_all_def)
  with b w r1 y r2 show ?thesis by blast
qed

text \<open>After a completed \<open>build_all\<close> the cache resolves every date of the built years.\<close>

lemma built_cache_resolves:
  assumes ba: "build_all db e n s c = (None, c')" and bi: "Builder_init db e n s = Inr b"
    and d: "valid_date d" "epoch_year b \<le> year d" "year d \<le> end_year b"
  shows "\<exists>w. week_ok w \<and> d \<in> set (wd_week_dates w)
     \<and> day_store c' d = Some (day_dict_of d (wd_year w, wd_week_number w))
     \<and> week_store c' (wd_year w, wd_week_number w) = Some w"
proof -
  from build_all_completed[OF ba] bi obtain b1 c1 c2 where
    w: "build_weeks b c = (None, b1, c1)" and y: "build_years b1 c1 = (None, c2)"
    and dd: "build_days b1 c2 = (None, c')" by auto
  from build_weeks_completed[OF w] obtain new where
    new: "b1 = b\<lparr>week_dicts := week_dicts b @ new\<rparr>" "c1 = fold write_single_week new c"
      "end_year b < MAXYEAR"
      "\<forall>w\<in>set new. week_ok w \<and> first_week_start (epoch_year b) \<le> toordinal (wd_week_start w)
            \<and> year (wd_week_start w) \<le> end_year b"
      "\<forall>d. valid_date d \<and> first_week_start (epoch_year b) \<le> toordinal d \<and> year d \<le> end_year b
            \<longrightarrow> (\<exists>w\<in>set new. d \<in> set (wd_week_dates w))"
    by blast
  have lo: "days_before_year (epoch_year b) + 1 \<le> toordinal d"
    using days_before_year_le[OF d(2)] toordinal_lower[OF d(1)] by simp
  have "first_week_start (epoch_year b) \<le> toordinal d"
    using first_week_start_le[of "epoch_year b" "epoch_year b"] lo by simp
  with new(5) d obtain w where w': "w \<in> set new" "d \<in> set (wd_week_dates w)" by blast
  have ok: "\<forall>w\<in>set new. week_ok w" using new(4) by blast
  then have wok: "week_ok w" using w'(1) by simp
  have tup: "date_to_week_tuple d = Inr (wd_year w, wd_week_number w)"
    using wok w'(2) by (rule week_ok_tuple) (use d(3) new(3) in simp)
  have "week_store c1 (wd_year w, wd_week_number w) = Some w"
    unfolding new(2) using _ w'(1)
    by (rule week_store_fold_present) (use ok week_ok_same_key in blast)
  then have ws2: "week_store c2 (wd_year w, wd_week_number w) = Some w"
    using build_years_keeps[OF y] by simp
  from dd obtain s t where st: "dtdate (epoch_year b1) 1 1 = Inr s" "dtdate (end_year b1) 12 31 = Inr t"
    "build_days_loop (date_range s t) c2 = (None, c')"
    by (auto simp: build_days_def split: sum.splits)
  have s: "valid_date s" "toordinal s = days_before_year (epoch_year b) + 1"
    using st(1) by (auto simp: dtdate_eq Let_def new(1) toordinal_jan1 split: if_splits)
  have t: "valid_date t" "toordinal t = days_before_year (end_year b + 1)"
    using st(2) by (auto simp: dtdate_eq Let_def new(1) toordinal_dec31 split: if_splits)
  have "toordinal d \<le> days_before_year (year d + 1)" by (rule toordinal_upper[OF d(1)])
  also have "\<dots> \<le> days_before_year (end_year b + 1)" using d(3) by (intro days_before_year_le) simp
  finally have "Inr d \<in> set (date_range s t)"
    using lo d(1) by (simp add: date_range_set[OF s(1) t(1)] s(2) t(2))
  with build_days_loop_day_store[OF st(3), of d] tup
  have ds: "day_store c' d = Some (day_dict_of d (wd_year w, wd_week_number w))" by auto
  have "week_store c' = week_store c2" by (rule build_days_loop_week_store[OF st(3)])
  with ws2 ds wok w'(2) show ?thesis by auto
qed

lemma Builder_init_Inr:
  assumes "Builder_init db e n s = Inr b"
  shows "epoch_year b \<le> end_year b \<and> years b = [epoch_year b .. end_year b]
     \<and> weekday_names b = WEEKDAYS_SUN0 \<and> week_dicts b = [] \<and> s = ''SUN''"
  using assms unfolding Builder_init_def Let_def
  by (auto split: if_splits)

lemma jan_one_dayname_index:
  "list_index (map name_short WEEKDAYS_SUN0) (upper (strftime_a d)) = Inr (strftime_w d)"
proof -
  have "0 \<le> strftime_w d" "strftime_w d < 7" by (simp_all add: strftime_w_def)
  then have "strftime_w d = 0 \<or> strftime_w d = 1 \<or> strftime_w d = 2 \<or> strftime_w d = 3
      \<or> strftime_w d = 4 \<or> strftime_w d = 5 \<or> strftime_w d = 6" by arith
  then show ?thesis
    by (elim disjE) (simp_all add: strftime_a_def WEEKDAYS_SUN0_def upper_def upper_char_def)
qed

lemma build_year_completes:
  assumes "MINYEAR \<le> y" "y \<le> MAXYEAR" "weekday_names b = WEEKDAYS_SUN0"
    "\<exists>w\<in>set (week_dicts b). wd_year w = y"
  shows "\<exists>c'. build_year b y c = (None, c')"
proof -
  have a: "dtdate y 1 1 = Inr \<lparr>year = y, month = 1, day = 1\<rparr>"
    "dtdate y 12 31 = Inr \<lparr>year = y, month = 12, day = 31\<rparr>"
    using valid_jan1[OF assms(1,2)] valid_dec31[OF assms(1,2)] by (simp_all add: dtdate_eq)
  have "filter (\<lambda>week. wd_year week = y) (week_dicts b) \<noteq> []"
    using assms(4) by (simp add: filter_empty_conv)
  then obtain x xs where "map wd_week_number (filter (\<lambda>week. wd_year week = y) (week_dicts b)) = x # xs"
    by (cases "filter (\<lambda>week. wd_year week = y) (week_dicts b)") auto
  then have m: "max_of (map wd_week_number (filter (\<lambda>week. wd_year week = y) (week_dicts b)))
      = Inr (fold max xs x)" by (simp add: max_of_def)
  show ?thesis
    unfolding build_year_def a Let_def by (simp add: assms(3) jan_one_dayname_index m)
qed

lemma build_years_loop_completes:
  assumes "\<forall>y\<in>set ys. MINYEAR \<le> y \<and> y \<le> MAXYEAR \<and> (\<exists>w\<in>set (week_dicts b). wd_year w = y)"
    "weekday_names b = WEEKDAYS_SUN0"
  shows "\<exists>c'. build_years_loop b ys c = (None, c')"
  using assms(1)
proof (induction ys arbitrary: c)
  case Nil
  then show ?case by simp
next
  case (Cons y ys)
  from build_year_completes[of y b c] Cons.prems assms(2)
  obtain c1 where "build_year b y c = (None, c1)" by auto
  with Cons.IH[of c1] Cons.prems show ?case by simp
qed

lemma build_days_loop_completes:
  assumes "\<forall>x\<in>set xs. \<exists>d. x = Inr d \<and> valid_date d \<and> year d < MAXYEAR"
  shows "\<exists>c'. build_days_loop xs c = (None, c')"
  using assms
proof (induction xs arbitrary: c)
  case Nil
  then show ?case by simp
next
  case (Cons x xs)
  from Cons.prems obtain d where d: "x = Inr d" "valid_date d" "year d < MAXYEAR" by auto
  from date_to_week_tuple_closed[OF d(2,3)] obtain t where "date_to_week_tuple d = Inr t" by blast
  with Cons.IH[of "write_single_day (day_dict_of d t) c"] Cons.prems d(1) show ?case by simp
qed

text \<open>When \<open>build_all\<close> completes: for years from 2 to 9998.\<close>

lemma build_all_completes:
  assumes bi: "Builder_init db e n s = Inr b" and lo: "MINYEAR < epoch_year b"
    and hi: "end_year b < MAXYEAR"
  shows "\<exists>c'. build_all db e n s c = (None, c')"
proof -
  from Builder_init_Inr[OF bi] have b: "epoch_year b \<le> end_year b"
    "years b = [epoch_year b .. end_year b]" "weekday_names b = WEEKDAYS_SUN0" by simp_all
  from build_weeks_completes[of b c] lo hi b(1) obtain b1 c1 where
    w: "build_weeks b c = (None, b1, c1)" by auto
  from build_weeks_completed[OF w] obtain new where
    new: "b1 = b\<lparr>week_dicts := week_dicts b @ new\<rparr>"
      "\<forall>w\<in>set new. week_ok w \<and> first_week_start (epoch_year b) \<le> toordinal (wd_week_start w)
            \<and> year (wd_week_start w) \<le> end_year b"
      "\<forall>d. valid_date d \<and> first_week_start (epoch_year b) \<le> toordinal d \<and> year d \<le> end_year b
            \<longrightarrow> (\<exists>w\<in>set new. d \<in> set (wd_week_dates w))"
    by blast
  have ok: "\<forall>w\<in>set new. week_ok w" using new(2) by blast
  have yr: "MINYEAR \<le> y \<and> y \<le> MAXYEAR \<and> (\<exists>w\<in>set (week_dicts b1). wd_year w = y)"
    if "y \<in> set (years b1)" for y
  proof -
    from that have y: "epoch_year b \<le> y" "y \<le> end_year b" by (simp_all add: new(1) b(2))
    have "wd_week_number ` {w \<in> set new. wd_year w = y} = {1 .. jan1_week (y + 1) - jan1_week y}"
      using ok new(3) _ y(2) hi first_week_start_le[OF y(1)]
      by (rule year_week_numbers) (use y lo in simp)
    moreover have "1 \<in> {1 .. jan1_week (y + 1) - jan1_week y}" using weeks_per_year[of y] by auto
    ultimately obtain w where "w \<in> set new" "wd_year w = y" by blast
    then show ?thesis using y lo hi by (auto simp: new(1))
  qed
  have "\<exists>c2. build_years b1 c1 = (None, c2)"
    unfolding build_years_def
    by (rule build_years_loop_completes) (use yr new(1) b(3) in simp_all)
  then obtain c2 where y: "build_years b1 c1 = (None, c2)" by blast
  let ?s = "\<lparr>year = epoch_year b, month = 1, day = 1\<rparr>"
  let ?t = "\<lparr>year = end_year b, month = 12, day = 31\<rparr>"
  have vs: "valid_date ?s" using lo hi b(1) by (intro valid_jan1) simp_all
  have vt: "valid_date ?t" using lo hi b(1) by (intro valid_dec31) simp_all
  have st: "dtdate (epoch_year b1) 1 1 = Inr ?s" "dtdate (end_year b1) 12 31 = Inr ?t"
    using vs vt by (simp_all add: dtdate_eq new(1))
  have "\<exists>d. x = Inr d \<and> valid_date d \<and> year d < MAXYEAR" if "x \<in> set (date_range ?s ?t)" for x
  proof -
    from date_range_collect[OF vs vt] obtain ds where
      ds: "collect (date_range ?s ?t) = Inr ds"
        "set ds = {d. valid_date d \<and> toordinal ?s \<le> toordinal d \<and> toordinal d \<le> toordinal ?t}"
      by blast
    from collect_Inr_map[OF ds(1)] that obtain d where d: "x = Inr d" "d \<in> set ds" by auto
    with ds(2) have "valid_date d" "toordinal d \<le> toordinal ?t" by simp_all
    with toordinal_year_mono[OF this(1) vt] d(1) hi show ?thesis by auto
  qed
  then have "\<exists>c'. build_days_loop (date_range ?s ?t) c2 = (None, c')"
    by (intro build_days_loop_completes) blast
  then obtain c' where "build_days b1 c2 = (None, c')" by (auto simp: build_days_def st)
  with bi w y show ?thesis by (simp add: build_all_def)
qed

section \<open>Reading from the cache\<close>

text \<open>The \<open>Week\<close> object that \<^verbatim>\<open>get_week_by_weeknum\<close> makes from a stored dictionary.\<close>

definition Week_of_dict :: "week_dict \<Rightarrow> Week" where
  "Week_of_dict wd = Week_init (wd_year wd) (wd_week_number wd) (wd_week_dates wd)
     (wd_week_start wd) (wd_week_end wd)"

lemma get_week_by_weeknum_hit:
  "week_store c (y, k) = Some wd \<Longrightarrow>
     get_week_by_weeknum db c y k = (Inr (Some (Week_of_dict wd)), c)"
  by (simp add: get_week_by_weeknum_def read_single_week_def Week_of_dict_def)

lemma get_week_by_weeknum_miss:
  "week_store c (y, k) = None \<Longrightarrow>
     get_week_by_weeknum db c y k =
       (case build_all db None None ''SUN'' c of
          (Some e, c') \<Rightarrow> (Inl e, c')
        | (None, c') \<Rightarrow> if db_debug_mode db then (Inl KeyError, c') else (Inr None, c'))"
  by (simp add: get_week_by_weeknum_def read_single_week_def)

lemma week_of_date_dict_hit:
  "week_store c (dd_week_year dd, dd_week_number dd) = Some wd \<Longrightarrow>
     week_of_date_dict db c dd = (Inr (Week_of_dict wd), c)"
  by (simp add: week_of_date_dict_def get_week_by_weeknum_hit)

lemma week_of_date_dict_Inr:
  assumes "week_of_date_dict db c dd = (Inr W, c')"
  shows "c' = c \<and> (\<exists>wd. week_store c (dd_week_year dd, dd_week_number dd) = Some wd
      \<and> W = Week_of_dict wd)"
proof (cases "week_store c (dd_week_year dd, dd_week_number dd)")
  case None
  obtain r c1 where "build_all db None None ''SUN'' c = (r, c1)"
    by (cases "build_all db None None ''SUN'' c") auto
  with assms None show ?thesis
    by (cases r) (auto simp: week_of_date_dict_def get_week_by_weeknum_miss split: if_splits)
next
  case (Some wd)
  with assms week_of_date_dict_hit[OF Some, of db] show ?thesis by simp
qed

lemma get_week_by_anydate_hit:
  "day_store c d = Some dd \<Longrightarrow> week_store c (dd_week_year dd, dd_week_number dd) = Some wd \<Longrightarrow>
     get_week_by_anydate db c d = (Inr (Week_of_dict wd), c)"
  by (simp add: get_week_by_anydate_def get_date_metadata_def read_single_day_def
      week_of_date_dict_hit)

lemma days_Week_of_dict: "days (Week_of_dict wd) = wd_week_dates wd"
  by (simp add: Week_of_dict_def Week_init_def)

lemma built_cache_get_week:
  assumes "build_all db e n s c = (None, c')" "Builder_init db e n s = Inr b"
    "valid_date d" "epoch_year b \<le> year d" "year d \<le> end_year b"
  shows "\<exists>w. get_week_by_anydate db2 c' d = (Inr w, c') \<and> d \<in> set (days w)"
proof -
  from built_cache_resolves[OF assms] obtain w where
    w: "d \<in> set (wd_week_dates w)"
      "day_store c' d = Some (day_dict_of d (wd_year w, wd_week_number w))"
      "week_store c' (wd_year w, wd_week_number w) = Some w" by blast
  have "get_week_by_anydate db2 c' d = (Inr (Week_of_dict w), c')"
    using w(2) by (rule get_week_by_anydate_hit) (simp add: day_dict_of_def w(3))
  with w(1) show ?thesis by (simp add: days_Week_of_dict)
qed


text \<open>
  A cache is consistent when every week record is stored under its own year and week
  number, as \<open>write_single_week\<close> stores it.
\<close>

definition cache_consistent :: "cache \<Rightarrow> bool" where
  "cache_consistent c =
     (\<forall>y k wd. week_store c (y, k) = Some wd \<longrightarrow> wd_year wd = y \<and> wd_week_number wd = k)"

lemma apply_write_consistent: "cache_consistent c \<Longrightarrow> cache_consistent (apply_write x c)"
  by (cases x)
    (auto simp: cache_consistent_def write_single_week_def write_single_year_def
      write_single_day_def write_years_def split: if_splits)

lemma apply_writes_consistent: "cache_consistent c \<Longrightarrow> cache_consistent (apply_writes ops c)"
  by (induction ops arbitrary: c)
    (simp_all add: apply_writes_Nil apply_writes_Cons apply_write_consistent)

lemma build_all_consistent:
  assumes "cache_consistent c" "build_all db e n s c = (r, c')"
  shows "cache_consistent c'"
proof -
  from build_all_writes[of db e n s] obtain r0 ops where
    "\<forall>c. build_all db e n s c = (r0, apply_writes ops c)" by blast
  with assms(2) have "c' = apply_writes ops c" by simp
  with apply_writes_consistent[OF assms(1)] show ?thesis by simp
qed

lemma get_week_by_anydate_Inr:
  assumes "cache_consistent c" "get_week_by_anydate db c d = (Inr W, c')"
  shows "cache_consistent c' \<and> (\<exists>dd wd. day_store c' d = Some dd
      \<and> week_store c' (dd_week_year dd, dd_week_number dd) = Some wd \<and> W = Week_of_dict wd)"
proof (cases "day_store c d")
  case (Some dd)
  with assms(2) have "week_of_date_dict db c dd = (Inr W, c')"
    by (simp add: get_week_by_anydate_def get_date_metadata_def read_single_day_def)
  from week_of_date_dict_Inr[OF this] Some assms(1) show ?thesis by auto
next
  case None
  obtain r c1 where b: "build_all db None None ''SUN'' c = (r, c1)"
    by (cases "build_all db None None ''SUN'' c") auto
  have c1: "cache_consistent c1" by (rule build_all_consistent[OF assms(1) b])
  from assms(2) None b have r: "r = None"
    by (cases r) (auto simp: get_week_by_anydate_def get_date_metadata_def read_single_day_def)
  from assms(2) None b r obtain dd where dd: "day_store c1 d = Some dd"
    by (cases "day_store c1 d")
      (auto simp: get_week_by_anydate_def get_date_metadata_def read_single_day_def)
  with assms(2) None b r have "week_of_date_dict db c1 dd = (Inr W, c')"
    by (simp add: get_week_by_anydate_def get_date_metadata_def read_single_day_def)
  from week_of_date_dict_Inr[OF this] dd c1 show ?thesis by auto
qed


lemma built_cache_week_absent:
  assumes ba: "build_all db e n s c = (None, c')" and bi: "Builder_init db e n s = Inr b"
    and y: "epoch_year b \<le> y" "y \<le> end_year b" and k: "53 < k"
    and c: "week_store c (y, k) = None"
  shows "week_store c' (y, k) = None"
proof -
  from build_all_completed[OF ba] bi obtain b1 c1 c2 where
    w: "build_weeks b c = (None, b1, c1)" and ys: "build_years b1 c1 = (None, c2)"
    and dd: "build_days b1 c2 = (None, c')" by auto
  from build_weeks_completed[OF w] obtain new where
    new: "c1 = fold write_single_week new c" "MINYEAR \<le> epoch_year b" "end_year b < MAXYEAR"
      "\<forall>w\<in>set new. week_ok w \<and> first_week_start (epoch_year b) \<le> toordinal (wd_week_start w)
            \<and> year (wd_week_start w) \<le> end_year b"
      "\<forall>d. valid_date d \<and> first_week_start (epoch_year b) \<le> toordinal d \<and> year d \<le> end_year b
            \<longrightarrow> (\<exists>w\<in>set new. d \<in> set (wd_week_dates w))"
    by blast
  have ok: "\<forall>w\<in>set new. week_ok w" using new(4) by blast
  have img: "wd_week_number ` {w \<in> set new. wd_year w = y} = {1 .. jan1_week (y + 1) - jan1_week y}"
    using ok new(5) _ y(2) new(3) first_week_start_le[OF y(1)]
    by (rule year_week_numbers) (use y new(2) in simp)
  have "(wd_year w, wd_week_number w) \<noteq> (y, k)" if "w \<in> set new" for w
  proof
    assume "(wd_year w, wd_week_number w) = (y, k)"
    with that have "k \<in> wd_week_number ` {w \<in> set new. wd_year w = y}" by force
    with img weeks_per_year[of y] k show False by auto
  qed
  then have "week_store c1 (y, k) = week_store c (y, k)"
    unfolding new(1) by (intro week_store_fold_absent) blast
  moreover have "week_store c2 = week_store c1" using build_years_keeps[OF ys] by simp
  moreover from dd have "week_store c' = week_store c2"
    by (auto simp: build_days_def split: sum.splits dest: build_days_loop_week_store)
  ultimately show ?thesis using c by simp
qed

lemma Builder_init_2021: "Builder_init db_2021 None None ''SUN'' = Inr builder_2021"
  by (simp add: Builder_init_def db_2021_def builder_2021_def int_or_0_def Let_def)

lemma build_all_2021:
  "build_all db_2021 None None ''SUN'' empty_cache
     = (None, snd (build_all db_2021 None None ''SUN'' empty_cache))"
proof -
  have "MINYEAR < epoch_year builder_2021" "end_year builder_2021 < MAXYEAR"
    by (simp_all add: builder_2021_def MINYEAR_def MAXYEAR_def)
  from build_all_completes[OF Builder_init_2021 this, of empty_cache] show ?thesis by auto
qed

lemma built_cache_day_absent:
  assumes ba: "build_all db e n s c = (None, c')" and bi: "Builder_init db e n s = Inr b"
    and d: "valid_date d" "end_year b < year d" and c: "day_store c d = None"
  shows "day_store c' d = None"
proof -
  from build_all_completed[OF ba] bi obtain b1 c1 c2 where
    w: "build_weeks b c = (None, b1, c1)" and ys: "build_years b1 c1 = (None, c2)"
    and dd: "build_days b1 c2 = (None, c')" by auto
  from build_weeks_completed[OF w] obtain new where
    new: "b1 = b\<lparr>week_dicts := week_dicts b @ new\<rparr>" "c1 = fold write_single_week new c" by blast
  have c2: "day_store c2 d = None"
    using build_years_keeps[OF ys] fold_weeks_other_stores[of new c] c by (simp add: new(2))
  from dd obtain s t where st: "dtdate (epoch_year b1) 1 1 = Inr s" "dtdate (end_year b1) 12 31 = Inr t"
    "build_days_loop (date_range s t) c2 = (None, c')"
    by (auto simp: build_days_def split: sum.splits)
  have s: "valid_date s" using st(1) by (auto simp: dtdate_eq Let_def split: if_splits)
  have t: "valid_date t" "year t = end_year b"
    using st(2) by (auto simp: dtdate_eq Let_def new(1) split: if_splits)
  have "toordinal t < toordinal d" using year_less_toordinal[OF t(1) d(1)] t(2) d(2) by simp
  then have "Inr d \<notin> set (date_range s t)" by (simp add: date_range_set[OF s t(1)])
  with build_days_loop_day_store[OF st(3), of d] c2 show ?thesis by simp
qed

lemma get_week_by_weeknum_counted_cache:
  "get_week_by_weeknum db c y k =
     (fst (get_week_by_weeknum_counted db (c, n) y k),
      fst (snd (get_week_by_weeknum_counted db (c, n) y k)))"
  by (simp add: get_week_by_weeknum_def get_week_by_weeknum_counted_def build_all_counted_def
      split: option.splits prod.splits)

lemma get_week_by_weeknum_counted_hit:
  "read_single_week c y k = Some wd \<Longrightarrow>
     get_week_by_weeknum_counted db (c, n) y k = (Inr (Some (Week_of_dict wd)), (c, n))"
  by (simp add: get_week_by_weeknum_counted_def Week_of_dict_def)

lemma build_all_2021_debug:
  "build_all db_2021_debug None None ''SUN'' empty_cache
     = (None, snd (build_all db_2021_debug None None ''SUN'' empty_cache))"
proof -
  let ?b = "builder_2021\<lparr>debug_mode := True\<rparr>"
  have bi: "Builder_init db_2021_debug None None ''SUN'' = Inr ?b"
    by (simp add: Builder_init_def db_2021_debug_def builder_2021_def int_or_0_def Let_def)
  have "MINYEAR < epoch_year ?b" "end_year ?b < MAXYEAR"
    by (simp_all add: builder_2021_def MINYEAR_def MAXYEAR_def)
  from build_all_completes[OF bi this, of empty_cache] show ?thesis by auto
qed

lemma built_2021_week_2:
  "\<exists>w. read_single_week (snd (build_all db_2021 None None ''SUN'' empty_cache)) 2021 2 = Some w
     \<and> \<lparr>year = 2021, month = 1, day = 3\<rparr> \<in> set (wd_week_dates w)"
proof -
  let ?d = "\<lparr>year = 2021, month = 1, day = 3\<rparr>"
  let ?C = "snd (build_all db_2021 None None ''SUN'' empty_cache)"
  have v: "valid_date ?d" by code_simp
  have r: "epoch_year builder_2021 \<le> year ?d" "year ?d \<le> end_year builder_2021"
    by (simp_all add: builder_2021_def)
  from built_cache_resolves[OF build_all_2021 Builder_init_2021 v r] obtain w where
    w: "week_ok w" "?d \<in> set (wd_week_dates w)"
      "week_store ?C (wd_year w, wd_week_number w) = Some w" by blast
  have "year ?d < MAXYEAR" by (simp add: MAXYEAR_def)
  from week_ok_tuple[OF w(1,2) this] have "date_to_week_tuple ?d = Inr (wd_year w, wd_week_number w)" .
  moreover have "date_to_week_tuple ?d = Inr (2021, 2)" by code_simp
  ultimately have "wd_year w = 2021" "wd_week_number w = 2" by simp_all
  with w(2,3) show ?thesis by (auto simp: read_single_week_def)
qed

lemma built_2021_week_60:
  "read_single_week (snd (build_all db_2021 None None ''SUN'' empty_cache)) 2021 60 = None"
proof -
  have "week_store (snd (build_all db_2021 None None ''SUN'' empty_cache)) (2021, 60) = None"
    using build_all_2021 Builder_init_2021
    by (rule built_cache_week_absent) (simp_all add: builder_2021_def empty_cache_def)
  then show ?thesis by (simp add: read_single_week_def)
qed

section \<open>Claims about single calls\<close>

text \<open>
  C3 (as amended). The spec's scenario says that 2021-01-03 is resolved by the
  early-January case to week 1 of 2021. January 1st 2021 is a Friday (position 6) and
  January 3rd is the Sunday after it (position 1), so the early-January test, which
  needs a larger weekday position than January 1st's, fails; the date falls to the
  general case, whose first Sunday is January 3rd itself, and
  \<open>Internals.date_to_week_tuple\<close> returns week 2 of 2021.
\<close>

theorem date_to_week_tuple_2021_01_03:
  "date_to_week_tuple \<lparr>year = 2021, month = 1, day = 3\<rparr> = Inr (2021, 2)
   \<and> day_of_week_int \<lparr>year = 2021, month = 1, day = 3\<rparr> = 1
   \<and> jan1 \<lparr>year = 2021, month = 1, day = 3\<rparr> = Inr \<lparr>year = 2021, month = 1, day = 1\<rparr>
   \<and> day_of_week_int \<lparr>year = 2021, month = 1, day = 1\<rparr> = 6
   \<and> add_relativedelta_SU \<lparr>year = 2021, month = 1, day = 1\<rparr>
       = Inr \<lparr>year = 2021, month = 1, day = 3\<rparr>"
  by code_simp

text \<open>C3 as the spec states it does not hold: the result is not week 1 of 2021.\<close>

theorem date_to_week_tuple_2021_01_03_not_week_1:
  "date_to_week_tuple \<lparr>year = 2021, month = 1, day = 3\<rparr> \<noteq> Inr (2021, 1)"
  by code_simp

text \<open>
  C8. The claim is that \<open>get_weeks_as_dict\<close> accepts every year from \<open>MIN_YEAR\<close> = 2000 to
  \<open>MAX_YEAR\<close> = 2201 inclusive. The test \<^verbatim>\<open>year not in range(MIN_YEAR, MAX_YEAR)\<close> leaves
  out \<open>MAX_YEAR\<close> itself: the year 2201 is refused with an exception, whatever the cache
  holds, while 2200 is accepted.
\<close>

theorem get_weeks_as_dict_refuses_2201:
  "get_weeks_as_dict c 2201 1 1 = Inl Exception
   \<and> get_weeks_as_dict c 2200 1 1 = Inr (List.map_filter (\<lambda>n. read_single_week c 2200 n) [1])"
  by (simp add: get_weeks_as_dict_def in_range_def MIN_YEAR_def MAX_YEAR_def upto.simps)

text \<open>
  C4 (as amended). For every date of a year before 9999, \<open>Internals.date_to_week_tuple\<close>
  resolves the three boundary cases as the spec lists them: a January 1st is week 1 of its
  own year; a date with a larger weekday position (Sunday = 1) than its January 1st and
  1 to 6 days after it is week 1 of its year; a date with a smaller weekday position than
  next January 1st and 1 to 6 days before it is week 1 of the next year. The three cases
  exclude each other, so the order of the tests does not change these results. For every
  date of the year 9999 the function raises ValueError.
\<close>

theorem date_to_week_tuple_boundary_cases:
  assumes "valid_date d"
  shows "(year d < MAXYEAR \<longrightarrow>
        (day d = 1 \<and> month d = 1 \<longrightarrow> date_to_week_tuple d = Inr (year d, 1))
      \<and> (day_of_week_int d > day_of_week_int \<lparr>year = year d, month = 1, day = 1\<rparr>
           \<and> in_range (date_sub d \<lparr>year = year d, month = 1, day = 1\<rparr>) 1 7
         \<longrightarrow> date_to_week_tuple d = Inr (year d, 1))
      \<and> (day_of_week_int d < day_of_week_int \<lparr>year = year d + 1, month = 1, day = 1\<rparr>
           \<and> in_range (date_sub \<lparr>year = year d + 1, month = 1, day = 1\<rparr> d) 1 7
         \<longrightarrow> date_to_week_tuple d = Inr (year d + 1, 1)))
    \<and> (year d = MAXYEAR \<longrightarrow> date_to_week_tuple d = Inl ValueError)"
proof (intro conjI impI)
  show "date_to_week_tuple d = Inl ValueError" if "year d = MAXYEAR"
    using assms that by (rule date_to_week_tuple_MAXYEAR)
next
  assume y: "year d < MAXYEAR"
  note unf = date_to_week_tuple_def jan1_eq[OF assms] jan1_next_year_eq[OF assms y]
    day_of_month_def month_of_year_def
  show "date_to_week_tuple d = Inr (year d, 1)" if "day d = 1 \<and> month d = 1"
    using that by (simp add: unf)
  show "date_to_week_tuple d = Inr (year d, 1)"
    if "day_of_week_int d > day_of_week_int \<lparr>year = year d, month = 1, day = 1\<rparr>
         \<and> in_range (date_sub d \<lparr>year = year d, month = 1, day = 1\<rparr>) 1 7"
    using that by (simp add: unf)
  show "date_to_week_tuple d = Inr (year d + 1, 1)"
    if h: "day_of_week_int d < day_of_week_int \<lparr>year = year d + 1, month = 1, day = 1\<rparr>
         \<and> in_range (date_sub \<lparr>year = year d + 1, month = 1, day = 1\<rparr> d) 1 7"
  proof -
    have far: "toordinal d - (days_before_year (year d) + 1) \<ge> 359"
      using h days_before_year_step_le[of "year d"]
      by (simp add: in_range_def date_sub_def toordinal_jan1)
    then have n1: "\<not> (day d = 1 \<and> month d = 1)"
      using is_jan1_iff[OF assms] by auto
    have n2: "\<not> in_range (date_sub d \<lparr>year = year d, month = 1, day = 1\<rparr>) 1 7"
      using far by (simp add: in_range_def date_sub_def toordinal_jan1)
    show ?thesis using h n1 n2 by (simp add: unf)
  qed
qed

text \<open>
  The three cases at 2021-01-01 (a Friday), 2021-01-02 and 2020-12-31, and the last day
  of the year 9999.
\<close>

theorem date_to_week_tuple_boundary_cases_witness:
  "date_to_week_tuple \<lparr>year = 2021, month = 1, day = 1\<rparr> = Inr (2021, 1)
   \<and> date_to_week_tuple \<lparr>year = 2021, month = 1, day = 2\<rparr> = Inr (2021, 1)
   \<and> date_to_week_tuple \<lparr>year = 2020, month = 12, day = 31\<rparr> = Inr (2021, 1)
   \<and> date_to_week_tuple \<lparr>year = 9999, month = 12, day = 31\<rparr> = Inl ValueError"
proof -
  let ?a = "\<lparr>year = 2021, month = 1, day = 1\<rparr>"
  let ?b = "\<lparr>year = 2021, month = 1, day = 2\<rparr>"
  let ?c = "\<lparr>year = 2020, month = 12, day = 31\<rparr>"
  let ?z = "\<lparr>year = 9999, month = 12, day = 31\<rparr>"
  have v: "valid_date ?a" "valid_date ?b" "valid_date ?c" "valid_date ?z" by code_simp+
  have y: "year ?a < MAXYEAR" "year ?b < MAXYEAR" "year ?c < MAXYEAR" "year ?z = MAXYEAR"
    by (simp_all add: MAXYEAR_def)
  have hb: "day_of_week_int ?b > day_of_week_int \<lparr>year = year ?b, month = 1, day = 1\<rparr>
         \<and> in_range (date_sub ?b \<lparr>year = year ?b, month = 1, day = 1\<rparr>) 1 7"
    by code_simp
  have hc: "day_of_week_int ?c < day_of_week_int \<lparr>year = year ?c + 1, month = 1, day = 1\<rparr>
         \<and> in_range (date_sub \<lparr>year = year ?c + 1, month = 1, day = 1\<rparr> ?c) 1 7"
    by code_simp
  from date_to_week_tuple_boundary_cases[OF v(1)] y(1)
  have "date_to_week_tuple ?a = Inr (2021, 1)" by simp
  moreover from date_to_week_tuple_boundary_cases[OF v(2)] y(2) hb
  have "date_to_week_tuple ?b = Inr (2021, 1)" by simp
  moreover from date_to_week_tuple_boundary_cases[OF v(3)] y(3) hc
  have "date_to_week_tuple ?c = Inr (2021, 1)" by simp
  moreover from date_to_week_tuple_boundary_cases[OF v(4)] y(4)
  have "date_to_week_tuple ?z = Inl ValueError" by blast
  ultimately show ?thesis by simp
qed

text \<open>
  C4 as stated, for any January 1st, fails in the last year of \<^verbatim>\<open>datetime.date\<close>: the
  function builds next year's January 1st before it tests anything, and
  \<^verbatim>\<open>date(10000, 1, 1)\<close> raises ValueError.
\<close>

theorem date_to_week_tuple_jan1_9999:
  "valid_date \<lparr>year = 9999, month = 1, day = 1\<rparr>
   \<and> date_to_week_tuple \<lparr>year = 9999, month = 1, day = 1\<rparr> = Inl ValueError"
  by code_simp

text \<open>
  C5 (as amended). For every date of a year before 9999 that none of the three boundary
  cases resolves, \<open>Internals.date_to_week_tuple\<close> returns the date's own calendar year and
  the week number floor((day of year of the date - day of year of the first Sunday) / 7)
  + first_full_week, where the first Sunday is the first Sunday of that year (a Sunday
  among its first seven days) and first_full_week is 1 if that Sunday is January 1st and
  2 otherwise. The difference is never negative here, so the truncation of \<^verbatim>\<open>int(delta / 7)\<close>
  is the floor. For every date of the year 9999 the function raises ValueError.
\<close>

theorem date_to_week_tuple_general_case:
  assumes v: "valid_date d"
  shows "(year d < MAXYEAR
      \<and> \<not> (day d = 1 \<and> month d = 1)
      \<and> \<not> (day_of_week_int d > day_of_week_int \<lparr>year = year d, month = 1, day = 1\<rparr>
           \<and> in_range (date_sub d \<lparr>year = year d, month = 1, day = 1\<rparr>) 1 7)
      \<and> \<not> (day_of_week_int d < day_of_week_int \<lparr>year = year d + 1, month = 1, day = 1\<rparr>
           \<and> in_range (date_sub \<lparr>year = year d + 1, month = 1, day = 1\<rparr> d) 1 7)
    \<longrightarrow> (\<exists>first_sunday.
        add_relativedelta_SU \<lparr>year = year d, month = 1, day = 1\<rparr> = Inr first_sunday
      \<and> valid_date first_sunday \<and> year first_sunday = year d \<and> day_of_week_int first_sunday = 1
      \<and> day_of_year first_sunday \<le> 7
      \<and> date_to_week_tuple d =
          Inr (year d,
               (day_of_year d - day_of_year first_sunday) div 7
                 + (if first_sunday = \<lparr>year = year d, month = 1, day = 1\<rparr> then 1 else 2))))
    \<and> (year d = MAXYEAR \<longrightarrow> date_to_week_tuple d = Inl ValueError)"
proof (intro conjI impI)
  show "date_to_week_tuple d = Inl ValueError" if "year d = MAXYEAR"
    using v that by (rule date_to_week_tuple_MAXYEAR)
next
  assume h: "year d < MAXYEAR
      \<and> \<not> (day d = 1 \<and> month d = 1)
      \<and> \<not> (day_of_week_int d > day_of_week_int \<lparr>year = year d, month = 1, day = 1\<rparr>
           \<and> in_range (date_sub d \<lparr>year = year d, month = 1, day = 1\<rparr>) 1 7)
      \<and> \<not> (day_of_week_int d < day_of_week_int \<lparr>year = year d + 1, month = 1, day = 1\<rparr>
           \<and> in_range (date_sub \<lparr>year = year d + 1, month = 1, day = 1\<rparr> d) 1 7)"
  then have y: "year d < MAXYEAR" and h1: "\<not> (day d = 1 \<and> month d = 1)"
    and h2: "\<not> (day_of_week_int d > day_of_week_int \<lparr>year = year d, month = 1, day = 1\<rparr>
           \<and> in_range (date_sub d \<lparr>year = year d, month = 1, day = 1\<rparr>) 1 7)"
    and h3: "\<not> (day_of_week_int d < day_of_week_int \<lparr>year = year d + 1, month = 1, day = 1\<rparr>
           \<and> in_range (date_sub \<lparr>year = year d + 1, month = 1, day = 1\<rparr> d) 1 7)"
    by blast+
  show "\<exists>first_sunday.
        add_relativedelta_SU \<lparr>year = year d, month = 1, day = 1\<rparr> = Inr first_sunday
      \<and> valid_date first_sunday \<and> year first_sunday = year d \<and> day_of_week_int first_sunday = 1
      \<and> day_of_year first_sunday \<le> 7
      \<and> date_to_week_tuple d =
          Inr (year d,
               (day_of_year d - day_of_year first_sunday) div 7
                 + (if first_sunday = \<lparr>year = year d, month = 1, day = 1\<rparr> then 1 else 2))"
  proof -
    let ?j1 = "\<lparr>year = year d, month = 1, day = 1\<rparr>"
    have yb: "MINYEAR \<le> year d" "year d \<le> MAXYEAR" using v by (simp_all add: valid_date_def)
    define J where "J = days_before_year (year d) + 1"
    from first_sunday[OF yb] obtain F where
      F: "add_relativedelta_SU ?j1 = Inr F" "valid_date F" "toordinal F = J + (- J) mod 7"
        "year F = year d"
      unfolding J_def by blast
    have kb: "0 \<le> (- J) mod 7" "(- J) mod 7 < 7" by simp_all
    have "(J + (- J) mod 7) mod 7 = (J + - J) mod 7" by (simp only: mod_add_right_eq)
    then have sun: "day_of_week_int F = 1" by (simp add: day_of_week_int_def F(3))
    have doyF: "day_of_year F = (- J) mod 7 + 1" using F(3,4) by (simp add: day_of_year_eq J_def)
    have vj: "valid_date ?j1" using yb by (rule valid_jan1)
    have Feq: "F = ?j1 \<longleftrightarrow> day_of_year F = 1"
    proof
      assume "F = ?j1"
      then have "toordinal F = J" by (simp add: toordinal_jan1 J_def)
      then show "day_of_year F = 1" using F(3) by (simp add: doyF)
    next
      assume "day_of_year F = 1"
      then have "toordinal F = toordinal ?j1" using F(3) by (simp add: doyF toordinal_jan1 J_def)
      then show "F = ?j1" by (rule toordinal_inj[OF F(2) vj])
    qed
    have n1: "\<not> (day_of_month d = 1 \<and> month_of_year d = 1)"
      using h1 by (simp add: day_of_month_def month_of_year_def)
    have J_le: "J \<le> toordinal d" using toordinal_lower[OF v] by (simp add: J_def)
    have nJ: "toordinal d \<noteq> J" using h1 is_jan1_iff[OF v] by (simp add: J_def)
    have ge: "toordinal F \<le> toordinal d"
    proof (rule ccontr)
      assume "\<not> toordinal F \<le> toordinal d"
      then have lt: "toordinal d < J + (- J) mod 7" by (simp add: F(3))
      obtain qJ rJ where qJ: "J = 7 * qJ + rJ" "0 \<le> rJ" "rJ < 7" "J div 7 = qJ" "J mod 7 = rJ"
        by (rule divmod7)
      obtain qn rn where qn: "toordinal d = 7 * qn + rn" "0 \<le> rn" "rn < 7"
        "toordinal d div 7 = qn" "toordinal d mod 7 = rn"
        by (rule divmod7)
      have negJ: "(- J) mod 7 = (if rJ = 0 then 0 else 7 - rJ)"
        using qJ(1-3) by (rule neg_mod7)
      have lt': "toordinal d < J + (if rJ = 0 then 0 else 7 - rJ)" using lt by (simp only: negJ)
      have "qn = qJ" using lt' J_le qJ(1-3) qn(1-3) by (cases "rJ = 0"; simp; arith)
      then have "rn > rJ \<and> 1 \<le> toordinal d - J \<and> toordinal d - J < 7"
        using lt' J_le nJ qJ(1-3) qn(1-3) by (cases "rJ = 0"; simp)
      then have "day_of_week_int d > day_of_week_int ?j1 \<and> in_range (date_sub d ?j1) 1 7"
        using qn(5) qJ(5)
        by (simp add: day_of_week_int_def in_range_def date_sub_def toordinal_jan1 J_def[symmetric])
      with h2 show False by blast
    qed
    then have nonneg: "0 \<le> day_of_year d - day_of_year F"
      by (simp add: day_of_year_eq F(4))
    have le7: "day_of_year F \<le> 7" using kb by (simp add: doyF)
    have "date_to_week_tuple d = Inr (year d,
        (day_of_year d - day_of_year F) div 7 + (if F = ?j1 then 1 else 2))"
      unfolding date_to_week_tuple_def jan1_eq[OF v] jan1_next_year_eq[OF v y]
      by (simp add: n1 h2 h3 F(1) Let_def int_truediv_nonneg[OF nonneg] Feq)
    with F sun le7 show ?thesis by blast
  qed
qed

text \<open>The general case at 2021-06-15, and a day of the year 9999.\<close>

theorem date_to_week_tuple_general_case_witness:
  "(\<exists>first_sunday.
      add_relativedelta_SU \<lparr>year = 2021, month = 1, day = 1\<rparr> = Inr first_sunday
    \<and> day_of_week_int first_sunday = 1
    \<and> date_to_week_tuple \<lparr>year = 2021, month = 6, day = 15\<rparr> =
        Inr (2021, (day_of_year \<lparr>year = 2021, month = 6, day = 15\<rparr> - day_of_year first_sunday) div 7
               + (if first_sunday = \<lparr>year = 2021, month = 1, day = 1\<rparr> then 1 else 2)))
   \<and> date_to_week_tuple \<lparr>year = 9999, month = 12, day = 25\<rparr> = Inl ValueError"
proof -
  let ?d = "\<lparr>year = 2021, month = 6, day = 15\<rparr>" and ?z = "\<lparr>year = 9999, month = 12, day = 25\<rparr>"
  have v: "valid_date ?d" "valid_date ?z" by code_simp+
  have y: "year ?d < MAXYEAR" "year ?z = MAXYEAR" by (simp_all add: MAXYEAR_def)
  have n1: "\<not> (day ?d = 1 \<and> month ?d = 1)" by simp
  have n2: "\<not> (day_of_week_int ?d > day_of_week_int \<lparr>year = year ?d, month = 1, day = 1\<rparr>
         \<and> in_range (date_sub ?d \<lparr>year = year ?d, month = 1, day = 1\<rparr>) 1 7)"
    by code_simp
  have n3: "\<not> (day_of_week_int ?d < day_of_week_int \<lparr>year = year ?d + 1, month = 1, day = 1\<rparr>
         \<and> in_range (date_sub \<lparr>year = year ?d + 1, month = 1, day = 1\<rparr> ?d) 1 7)"
    by code_simp
  from date_to_week_tuple_general_case[OF v(1)] y(1) n1 n2 n3
  have "\<exists>first_sunday.
      add_relativedelta_SU \<lparr>year = 2021, month = 1, day = 1\<rparr> = Inr first_sunday
    \<and> day_of_week_int first_sunday = 1
    \<and> date_to_week_tuple ?d =
        Inr (2021, (day_of_year ?d - day_of_year first_sunday) div 7
               + (if first_sunday = \<lparr>year = 2021, month = 1, day = 1\<rparr> then 1 else 2))"
    by auto
  moreover from date_to_week_tuple_general_case[OF v(2)] y(2)
  have "date_to_week_tuple ?z = Inl ValueError" by blast
  ultimately show ?thesis by blast
qed

text \<open>
  C5 as stated, for any date, fails in the year 9999: 9999-06-15 meets none of the
  boundary conditions, and the function raises ValueError.
\<close>

theorem date_to_week_tuple_general_case_9999:
  "valid_date \<lparr>year = 9999, month = 6, day = 15\<rparr>
   \<and> \<not> (day \<lparr>year = 9999, month = 6, day = 15\<rparr> = 1 \<and> month \<lparr>year = 9999, month = 6, day = 15\<rparr> = 1)
   \<and> \<not> (day_of_week_int \<lparr>year = 9999, month = 6, day = 15\<rparr>
            > day_of_week_int \<lparr>year = 9999, month = 1, day = 1\<rparr>
         \<and> in_range (date_sub \<lparr>year = 9999, month = 6, day = 15\<rparr>
                       \<lparr>year = 9999, month = 1, day = 1\<rparr>) 1 7)
   \<and> \<not> (day_of_week_int \<lparr>year = 9999, month = 6, day = 15\<rparr>
            < day_of_week_int \<lparr>year = 10000, month = 1, day = 1\<rparr>
         \<and> in_range (date_sub \<lparr>year = 10000, month = 1, day = 1\<rparr>
                       \<lparr>year = 9999, month = 6, day = 15\<rparr>) 1 7)
   \<and> date_to_week_tuple \<lparr>year = 9999, month = 6, day = 15\<rparr> = Inl ValueError"
  by code_simp

section \<open>Claims about build_weeks\<close>

text \<open>
  C7. Every Week record produced by a completed \<open>Builder.build_weeks\<close> holds exactly 7
  consecutive calendar dates (the start date plus 0 to 6 days), starts on a Sunday and
  ends 6 days after its start; and for each year of the built range, from \<open>epoch_year\<close>
  to \<open>end_year\<close>, the week numbers of the records of that year are exactly 1 to
  \<open>max_week_number\<close>, which is 52 or 53.
\<close>

theorem build_weeks_records:
  assumes "build_weeks b c = (None, b', c')"
  shows "(\<forall>w\<in>set (weeks_built b b').
            length (wd_week_dates w) = 7
          \<and> (\<forall>i<7. date_add (wd_week_start w) (int i) = Inr (wd_week_dates w ! i))
          \<and> day_of_week_int (wd_week_start w) = 1
          \<and> date_add (wd_week_start w) 6 = Inr (wd_week_end w))
     \<and> (\<forall>y. epoch_year b \<le> y \<and> y \<le> end_year b \<longrightarrow>
           (\<exists>max_week_number. (max_week_number = 52 \<or> max_week_number = 53)
              \<and> wd_week_number ` {w \<in> set (weeks_built b b'). wd_year w = y}
                  = {1 .. max_week_number}))"
proof -
  from build_weeks_completed[OF assms] obtain new where
    new: "b' = b\<lparr>week_dicts := week_dicts b @ new\<rparr>"
      "MINYEAR \<le> epoch_year b" "end_year b < MAXYEAR"
      "\<forall>w\<in>set new. week_ok w \<and> first_week_start (epoch_year b) \<le> toordinal (wd_week_start w)
            \<and> year (wd_week_start w) \<le> end_year b"
      "\<forall>d. valid_date d \<and> first_week_start (epoch_year b) \<le> toordinal d \<and> year d \<le> end_year b
            \<longrightarrow> (\<exists>w\<in>set new. d \<in> set (wd_week_dates w))"
    by blast
  have wb: "weeks_built b b' = new" by (simp add: weeks_built_def new(1))
  have ok: "\<forall>w\<in>set new. week_ok w" using new(4) by blast
  have p1: "\<forall>w\<in>set new. length (wd_week_dates w) = 7
          \<and> (\<forall>i<7. date_add (wd_week_start w) (int i) = Inr (wd_week_dates w ! i))
          \<and> day_of_week_int (wd_week_start w) = 1
          \<and> date_add (wd_week_start w) 6 = Inr (wd_week_end w)"
    using ok week_ok_seven by blast
  have p2: "\<exists>m. (m = 52 \<or> m = 53)
      \<and> wd_week_number ` {w \<in> set new. wd_year w = y} = {1 .. m}"
    if y: "epoch_year b \<le> y \<and> y \<le> end_year b" for y
  proof -
    have "wd_week_number ` {w \<in> set new. wd_year w = y} = {1 .. jan1_week (y + 1) - jan1_week y}"
      using ok new(5) _ _ new(3) first_week_start_le
      by (rule year_week_numbers) (use y new(2) in simp_all)
    with weeks_per_year[of y] show ?thesis by auto
  qed
  from p1 p2 show ?thesis unfolding wb by blast
qed


text \<open>The build for the single year 2021, from an empty cache.\<close>

theorem build_weeks_records_witness:
  "fst (build_weeks builder_2021 empty_cache) = None
   \<and> length (wd_week_dates (hd (weeks_built builder_2021
                (fst (snd (build_weeks builder_2021 empty_cache)))))) = 7
   \<and> day_of_week_int (wd_week_start (hd (weeks_built builder_2021
                (fst (snd (build_weeks builder_2021 empty_cache)))))) = 1
   \<and> (\<exists>m. (m = 52 \<or> m = 53)
        \<and> wd_week_number ` {w \<in> set (weeks_built builder_2021
                (fst (snd (build_weeks builder_2021 empty_cache)))). wd_year w = 2021} = {1 .. m})"
proof -
  let ?r = "build_weeks builder_2021 empty_cache"
  have f: "fst ?r = None" by code_simp
  then have c: "?r = (None, fst (snd ?r), snd (snd ?r))" by (simp add: prod_eq_iff)
  have h: "hd (weeks_built builder_2021 (fst (snd ?r))) \<in> set (weeks_built builder_2021 (fst (snd ?r)))"
    by code_simp
  have y: "epoch_year builder_2021 \<le> 2021 \<and> 2021 \<le> end_year builder_2021"
    by (simp add: builder_2021_def)
  from build_weeks_records[OF c] h y f show ?thesis by blast
qed


text \<open>
  C1 (as amended). After a completed \<open>build_weeks\<close>, for every date of a year before 9999:
  if a Week record built by this call lists the date, \<open>Internals.date_to_week_tuple\<close>
  returns exactly that record's (year, week_number), and no other built record lists the
  date; and every date from the Sunday on or before January 1st of \<open>epoch_year\<close> to the end
  of \<open>end_year\<close> is listed by a built record.
\<close>

theorem date_to_week_tuple_agrees_with_build_weeks:
  assumes "build_weeks b c = (None, b', c')" and "valid_date d" and "year d < MAXYEAR"
  shows "(\<forall>w\<in>set (weeks_built b b'). d \<in> set (wd_week_dates w) \<longrightarrow>
            date_to_week_tuple d = Inr (wd_year w, wd_week_number w)
          \<and> (\<forall>w'\<in>set (weeks_built b b'). d \<in> set (wd_week_dates w') \<longrightarrow> w' = w))
     \<and> (first_week_start (epoch_year b) \<le> toordinal d \<and> year d \<le> end_year b \<longrightarrow>
           (\<exists>w\<in>set (weeks_built b b'). d \<in> set (wd_week_dates w)))"
proof -
  from build_weeks_completed[OF assms(1)] obtain new where
    new: "b' = b\<lparr>week_dicts := week_dicts b @ new\<rparr>"
      "\<forall>w\<in>set new. week_ok w \<and> first_week_start (epoch_year b) \<le> toordinal (wd_week_start w)
            \<and> year (wd_week_start w) \<le> end_year b"
      "\<forall>d. valid_date d \<and> first_week_start (epoch_year b) \<le> toordinal d \<and> year d \<le> end_year b
            \<longrightarrow> (\<exists>w\<in>set new. d \<in> set (wd_week_dates w))"
    by blast
  have wb: "weeks_built b b' = new" by (simp add: weeks_built_def new(1))
  have ok: "\<forall>w\<in>set new. week_ok w" using new(2) by blast
  have p1: "date_to_week_tuple d = Inr (wd_year w, wd_week_number w)
          \<and> (\<forall>w'\<in>set new. d \<in> set (wd_week_dates w') \<longrightarrow> w' = w)"
    if "w \<in> set new" "d \<in> set (wd_week_dates w)" for w
    using that ok week_ok_tuple[OF _ that(2) assms(3)] week_ok_unique[of _ w d] by blast
  from p1 new(3) assms(2) show ?thesis unfolding wb by blast
qed

text \<open>The date 2021-01-03 and the build for 2021.\<close>

theorem date_to_week_tuple_agrees_with_build_weeks_witness:
  "fst (build_weeks builder_2021 empty_cache) = None
   \<and> (\<exists>w\<in>set (weeks_built builder_2021 (fst (snd (build_weeks builder_2021 empty_cache)))).
         \<lparr>year = 2021, month = 1, day = 3\<rparr> \<in> set (wd_week_dates w)
       \<and> date_to_week_tuple \<lparr>year = 2021, month = 1, day = 3\<rparr> = Inr (wd_year w, wd_week_number w))"
proof -
  let ?r = "build_weeks builder_2021 empty_cache"
  let ?d = "\<lparr>year = 2021, month = 1, day = 3\<rparr>"
  have f: "fst ?r = None" by code_simp
  then have c: "?r = (None, fst (snd ?r), snd (snd ?r))" by (simp add: prod_eq_iff)
  have v: "valid_date ?d" by code_simp
  have y: "year ?d < MAXYEAR" by (simp add: MAXYEAR_def)
  have r: "first_week_start (epoch_year builder_2021) \<le> toordinal ?d \<and> year ?d \<le> end_year builder_2021"
    by code_simp
  from date_to_week_tuple_agrees_with_build_weeks[OF c v y] r f show ?thesis by blast
qed


text \<open>
  C1 as stated fails for the last week of a build that ends with the year 9998: the
  week from 9998-12-27 to 9999-01-02 is built as week 1 of 9999, and for its date
  9999-01-01 \<open>Internals.date_to_week_tuple\<close> raises ValueError instead of returning (9999, 1).
\<close>

theorem date_to_week_tuple_fails_in_last_week_of_9998:
  "fst (build_weeks builder_9998 empty_cache) = None
   \<and> last_week_9998 \<in> set (weeks_built builder_9998 (fst (snd (build_weeks builder_9998 empty_cache))))
   \<and> \<lparr>year = 9999, month = 1, day = 1\<rparr> \<in> set (wd_week_dates last_week_9998)
   \<and> valid_date \<lparr>year = 9999, month = 1, day = 1\<rparr>
   \<and> date_to_week_tuple \<lparr>year = 9999, month = 1, day = 1\<rparr> = Inl ValueError"
  by code_simp

section \<open>Claims about build_all and the readers\<close>

text \<open>
  C9. \<open>Builder.build_all\<close> never reads the cache: for a given configuration (the
  settings and the three arguments) its outcome and the list of records it writes, keys
  and values, are fixed, whatever the cache held before; and running it again on the cache
  it has left gives the same outcome and leaves exactly that cache.
\<close>

theorem build_all_deterministic_and_idempotent:
  "\<exists>r ops. \<forall>c. build_all db epoch_year_arg end_year_arg start_of_week c = (r, apply_writes ops c)
      \<and> build_all db epoch_year_arg end_year_arg start_of_week (apply_writes ops c)
          = (r, apply_writes ops c)"
proof -
  from build_all_writes[of db epoch_year_arg end_year_arg start_of_week] obtain r ops where
    a: "\<forall>c. build_all db epoch_year_arg end_year_arg start_of_week c = (r, apply_writes ops c)"
    by blast
  then have "build_all db epoch_year_arg end_year_arg start_of_week (apply_writes ops c)
          = (r, apply_writes ops c)" for c
    by (simp add: apply_writes_idem)
  with a show ?thesis by blast
qed

text \<open>
  C6. After a completed \<open>build_all\<close>, for every date \<open>d\<close> of the years from \<open>epoch_year\<close> to
  \<open>end_year\<close>, \<open>get_week_by_anydate\<close> returns, without touching the cache, a \<open>Week\<close>
  whose days contain \<open>d\<close>; when the Day record is absent and the one rebuild that
  \<open>get_week_by_anydate\<close> triggers itself (with the configured years) completes, the same
  holds for the rebuilt cache; and if the Day record of a date is still absent after that
  rebuild, \<open>get_week_by_anydate\<close> raises KeyError.
\<close>

theorem get_week_by_anydate_after_build:
  assumes "Builder_init db e n s = Inr b" and "build_all db e n s c = (None, c')"
    and "valid_date d" and "epoch_year b \<le> year d" and "year d \<le> end_year b"
  shows "(\<exists>w. get_week_by_anydate db2 c' d = (Inr w, c') \<and> d \<in> set (days w))
     \<and> (e = None \<and> n = None \<and> get_date_metadata c d = None \<longrightarrow>
          (\<exists>w. get_week_by_anydate db c d = (Inr w, c') \<and> d \<in> set (days w)))
     \<and> (\<forall>c0 c1 d0. get_date_metadata c0 d0 = None
            \<and> build_all db None None ''SUN'' c0 = (None, c1)
            \<and> get_date_metadata c1 d0 = None
          \<longrightarrow> get_week_by_anydate db c0 d0 = (Inl KeyError, c1))"
proof (intro conjI impI allI)
  show "\<exists>w. get_week_by_anydate db2 c' d = (Inr w, c') \<and> d \<in> set (days w)"
    by (rule built_cache_get_week[OF assms(2,1,3,4,5)])
next
  assume h: "e = None \<and> n = None \<and> get_date_metadata c d = None"
  have s: "s = ''SUN''" using Builder_init_Inr[OF assms(1)] by simp
  from built_cache_resolves[OF assms(2,1,3,4,5)] obtain w where
    w: "d \<in> set (wd_week_dates w)"
      "day_store c' d = Some (day_dict_of d (wd_year w, wd_week_number w))"
      "week_store c' (wd_year w, wd_week_number w) = Some w" by blast
  have "week_of_date_dict db c' (day_dict_of d (wd_year w, wd_week_number w))
      = (Inr (Week_of_dict w), c')"
    by (rule week_of_date_dict_hit) (simp add: day_dict_of_def w(3))
  then have "get_week_by_anydate db c d = (Inr (Week_of_dict w), c')"
    using h s assms(2) w(2)
    by (simp add: get_week_by_anydate_def get_date_metadata_def read_single_day_def)
  with w(1) show "\<exists>w. get_week_by_anydate db c d = (Inr w, c') \<and> d \<in> set (days w)"
    by (simp add: days_Week_of_dict)
next
  fix c0 c1 d0
  assume "get_date_metadata c0 d0 = None \<and> build_all db None None ''SUN'' c0 = (None, c1)
            \<and> get_date_metadata c1 d0 = None"
  then show "get_week_by_anydate db c0 d0 = (Inl KeyError, c1)"
    by (simp add: get_week_by_anydate_def)
qed


text \<open>
  The settings 2021..2021 and an empty cache: a lookup after the build, a lookup that
  triggers the build, and the date 2030-06-15, which the build does not cover.
\<close>

theorem get_week_by_anydate_after_build_witness:
  "(\<exists>w. get_week_by_anydate db_2021 (snd (build_all db_2021 None None ''SUN'' empty_cache))
            \<lparr>year = 2021, month = 6, day = 15\<rparr>
          = (Inr w, snd (build_all db_2021 None None ''SUN'' empty_cache))
        \<and> \<lparr>year = 2021, month = 6, day = 15\<rparr> \<in> set (days w))
   \<and> (\<exists>w. get_week_by_anydate db_2021 empty_cache \<lparr>year = 2021, month = 6, day = 15\<rparr>
          = (Inr w, snd (build_all db_2021 None None ''SUN'' empty_cache))
        \<and> \<lparr>year = 2021, month = 6, day = 15\<rparr> \<in> set (days w))
   \<and> get_week_by_anydate db_2021 empty_cache \<lparr>year = 2030, month = 6, day = 15\<rparr>
        = (Inl KeyError, snd (build_all db_2021 None None ''SUN'' empty_cache))"
proof -
  let ?d = "\<lparr>year = 2021, month = 6, day = 15\<rparr>" and ?o = "\<lparr>year = 2030, month = 6, day = 15\<rparr>"
  let ?C = "snd (build_all db_2021 None None ''SUN'' empty_cache)"
  have v: "valid_date ?d" "valid_date ?o" by code_simp+
  have r: "epoch_year builder_2021 \<le> year ?d" "year ?d \<le> end_year builder_2021"
    by (simp_all add: builder_2021_def)
  have m: "get_date_metadata empty_cache ?d = None" "get_date_metadata empty_cache ?o = None"
    by (simp_all add: get_date_metadata_def read_single_day_def empty_cache_def)
  have "day_store ?C ?o = None"
    using build_all_2021 Builder_init_2021 v(2)
    by (rule built_cache_day_absent) (simp_all add: builder_2021_def empty_cache_def)
  then have o: "get_date_metadata ?C ?o = None"
    by (simp add: get_date_metadata_def read_single_day_def)
  from get_week_by_anydate_after_build[OF Builder_init_2021 build_all_2021 v(1) r, of db_2021]
    m o build_all_2021
  show ?thesis by blast
qed


text \<open>
  C2 (as amended). On every cache miss \<open>get_week_by_weeknum\<close> runs \<open>build_all\<close> exactly
  once: the count of rebuilds goes from \<open>n\<close> to \<open>n + 1\<close>, and the cache it leaves is the
  one that run has written. It does not read the cache again. An exception of the rebuild
  is passed on; when the rebuild completes, the call raises KeyError if the debug setting
  is on and returns \<^verbatim>\<open>None\<close> if it is off, whatever the rebuild has written: so also
  when the record is still absent.
\<close>

theorem get_week_by_weeknum_on_miss:
  assumes "read_single_week c y week_num = None"
  shows "\<exists>r c'. build_all db None None ''SUN'' c = (r, c')
      \<and> get_week_by_weeknum_counted db (c, n) y week_num
          = ((case r of Some e \<Rightarrow> Inl e
              | None \<Rightarrow> if db_debug_mode db then Inl KeyError else Inr None), (c', n + 1))
      \<and> get_week_by_weeknum db c y week_num
          = ((case r of Some e \<Rightarrow> Inl e
              | None \<Rightarrow> if db_debug_mode db then Inl KeyError else Inr None), c')"
proof -
  obtain r c' where b: "build_all db None None ''SUN'' c = (r, c')"
    by (cases "build_all db None None ''SUN'' c") auto
  have "get_week_by_weeknum_counted db (c, n) y week_num
          = ((case r of Some e \<Rightarrow> Inl e
              | None \<Rightarrow> if db_debug_mode db then Inl KeyError else Inr None), (c', n + 1))"
    using assms b
    by (cases r) (simp_all add: get_week_by_weeknum_counted_def build_all_counted_def)
  moreover have "get_week_by_weeknum db c y week_num
          = ((case r of Some e \<Rightarrow> Inl e
              | None \<Rightarrow> if db_debug_mode db then Inl KeyError else Inr None), c')"
    using assms b by (cases r) (simp_all add: get_week_by_weeknum_def)
  ultimately show ?thesis using b by blast
qed

text \<open>
  The settings 2021..2021 and an empty cache. Week 60 of 2021 is written by no build;
  week 2 is written by the rebuild, and the call that triggered it still returns
  \<^verbatim>\<open>None\<close>; with the debug setting on the call raises KeyError. Each time the count
  of rebuilds is one.
\<close>

theorem get_week_by_weeknum_on_miss_witness:
  "get_week_by_weeknum_counted db_2021 (empty_cache, 0) 2021 60
     = (Inr None, (snd (build_all db_2021 None None ''SUN'' empty_cache), 1))
   \<and> get_week_by_weeknum_counted db_2021 (empty_cache, 0) 2021 2
     = (Inr None, (snd (build_all db_2021 None None ''SUN'' empty_cache), 1))
   \<and> get_week_by_weeknum db_2021 empty_cache 2021 2
     = (Inr None, snd (build_all db_2021 None None ''SUN'' empty_cache))
   \<and> get_week_by_weeknum_counted db_2021_debug (empty_cache, 0) 2021 60
     = (Inl KeyError, (snd (build_all db_2021_debug None None ''SUN'' empty_cache), 1))"
proof -
  have m: "read_single_week empty_cache 2021 60 = None" "read_single_week empty_cache 2021 2 = None"
    by (simp_all add: read_single_week_def empty_cache_def)
  have d: "\<not> db_debug_mode db_2021" "db_debug_mode db_2021_debug"
    by (simp_all add: db_2021_def db_2021_debug_def)
  from get_week_by_weeknum_on_miss[OF m(1), of db_2021 0] build_all_2021 d(1)
  have "get_week_by_weeknum_counted db_2021 (empty_cache, 0) 2021 60
     = (Inr None, (snd (build_all db_2021 None None ''SUN'' empty_cache), 1))"
    by auto
  moreover from get_week_by_weeknum_on_miss[OF m(2), of db_2021 0] build_all_2021 d(1)
  have "get_week_by_weeknum_counted db_2021 (empty_cache, 0) 2021 2
     = (Inr None, (snd (build_all db_2021 None None ''SUN'' empty_cache), 1))
    \<and> get_week_by_weeknum db_2021 empty_cache 2021 2
     = (Inr None, snd (build_all db_2021 None None ''SUN'' empty_cache))"
    by auto
  moreover from get_week_by_weeknum_on_miss[OF m(1), of db_2021_debug 0] build_all_2021_debug d(2)
  have "get_week_by_weeknum_counted db_2021_debug (empty_cache, 0) 2021 60
     = (Inl KeyError, (snd (build_all db_2021_debug None None ''SUN'' empty_cache), 1))"
    by auto
  ultimately show ?thesis by blast
qed

text \<open>
  C2 as stated fails. With the debug setting off, the lookup of week 60 of 2021 misses,
  the rebuild completes, the record is still absent, and the call returns \<^verbatim>\<open>None\<close>
  instead of raising. And the read is not tried again: the lookup of week 2 misses, the
  rebuild writes the record, and the call returns \<^verbatim>\<open>None\<close>.
\<close>

theorem get_week_by_weeknum_returns_None:
  "read_single_week empty_cache 2021 60 = None
   \<and> fst (build_all db_2021 None None ''SUN'' empty_cache) = None
   \<and> read_single_week (snd (build_all db_2021 None None ''SUN'' empty_cache)) 2021 60 = None
   \<and> fst (get_week_by_weeknum db_2021 empty_cache 2021 60) = Inr None
   \<and> read_single_week empty_cache 2021 2 = None
   \<and> read_single_week (snd (build_all db_2021 None None ''SUN'' empty_cache)) 2021 2 \<noteq> None
   \<and> fst (get_week_by_weeknum db_2021 empty_cache 2021 2) = Inr None"
proof -
  let ?C = "snd (build_all db_2021 None None ''SUN'' empty_cache)"
  have m: "week_store empty_cache (2021, 60) = None" "week_store empty_cache (2021, 2) = None"
    by (simp_all add: empty_cache_def)
  have "fst (build_all db_2021 None None ''SUN'' empty_cache) = None"
    using build_all_2021 by (metis fst_conv)
  moreover have d: "\<not> db_debug_mode db_2021" by (simp add: db_2021_def)
  then have "get_week_by_weeknum db_2021 empty_cache 2021 60 = (Inr None, ?C)"
    by (subst get_week_by_weeknum_miss[OF m(1)], subst build_all_2021) simp
  moreover from d have "get_week_by_weeknum db_2021 empty_cache 2021 2 = (Inr None, ?C)"
    by (subst get_week_by_weeknum_miss[OF m(2)], subst build_all_2021) simp
  moreover have "read_single_week ?C 2021 2 \<noteq> None" using built_2021_week_2 by auto
  ultimately show ?thesis using m built_2021_week_60 by (simp add: read_single_week_def)
qed


text \<open>
  C10. When \<open>from_date\<close> equals \<open>to_date\<close> and \<open>get_week_by_anydate\<close> resolves the date
  to a \<open>Week\<close> (in a cache whose week records are stored under their own keys),
  \<open>week_generator\<close> yields exactly two elements, both that \<open>Week\<close>.
\<close>

theorem week_generator_same_date:
  assumes "cache_consistent c" and "get_week_by_anydate db c d = (Inr W, c')"
  shows "week_generator db c d d = ([Some W, Some W], None, c')"
proof -
  from get_week_by_anydate_Inr[OF assms] obtain dd wd where
    c': "cache_consistent c'" and dd: "day_store c' d = Some dd"
    and wd: "week_store c' (dd_week_year dd, dd_week_number dd) = Some wd"
    and W: "W = Week_of_dict wd" by blast
  have again: "get_week_by_anydate db c' d = (Inr W, c')"
    unfolding W by (rule get_week_by_anydate_hit[OF dd wd])
  have key: "wd_year wd = dd_week_year dd" "wd_week_number wd = dd_week_number dd"
    using c' wd by (auto simp: cache_consistent_def)
  have fields: "week_year W = wd_year wd" "week_number W = wd_week_number wd"
    by (simp_all add: W Week_of_dict_def Week_init_def)
  have gw: "get_week_by_weeknum db c' (week_year W) (week_number W) = (Inr (Some W), c')"
    unfolding W[symmetric] fields key by (simp add: get_week_by_weeknum_hit[OF wd] W)
  have nl: "\<not> date_less d d" by (simp add: date_less_def)
  show ?thesis
    unfolding week_generator_def using nl by (simp add: assms(2) again gw Let_def)
qed


text \<open>A cache that holds the day 2021-01-03 and its week.\<close>

theorem week_generator_same_date_witness:
  "week_generator db_2021 small_cache \<lparr>year = 2021, month = 1, day = 3\<rparr>
       \<lparr>year = 2021, month = 1, day = 3\<rparr>
     = ([Some (Week_of_dict week_2021_02), Some (Week_of_dict week_2021_02)], None, small_cache)
   \<and> \<lparr>year = 2021, month = 1, day = 3\<rparr> \<in> set (days (Week_of_dict week_2021_02))"
proof -
  let ?d = "\<lparr>year = 2021, month = 1, day = 3\<rparr>"
  have c: "cache_consistent small_cache"
    by (auto simp: cache_consistent_def small_cache_def week_2021_02_def split: if_splits)
  have "get_week_by_anydate db_2021 small_cache ?d = (Inr (Week_of_dict week_2021_02), small_cache)"
    by (rule get_week_by_anydate_hit[where dd = "day_dict_of ?d (2021, 2)"])
      (simp_all add: small_cache_def day_dict_of_def)
  from week_generator_same_date[OF c this] show ?thesis
    by (simp add: days_Week_of_dict week_2021_02_def)
qed

end
